theory Spec2Isabelle
  imports Main "HOL-Library.Word"
begin

section \<open>Key parts and their JSON serialisation\<close>

text \<open>
  The memoized function takes \<^verbatim>\<open>A extends Deno.KvKey\<close>: a list of key parts. The parts that
  Deno's store takes are a \<^verbatim>\<open>Uint8Array\<close>, a \<^verbatim>\<open>string\<close>, a \<^verbatim>\<open>number\<close>, a \<^verbatim>\<open>bigint\<close> and a \<^verbatim>\<open>boolean\<close>.
  The type is the platform's, as is \<^verbatim>\<open>JSON.stringify\<close>; both are written out here, the
  second from the ECMAScript definition (\<^verbatim>\<open>SerializeJSONProperty\<close>, \<^verbatim>\<open>QuoteJSONString\<close>,
  \<^verbatim>\<open>Number::toString\<close>), for the values the source applies it to.

  A JavaScript \<^verbatim>\<open>number\<close> is kept in the form in which \<^verbatim>\<open>Number::toString\<close> reads it: a finite
  non-zero number is given by its sign and the integers \<open>s\<close> and \<open>n\<close>, where \<open>s\<close> is the shortest
  digit string that identifies the number, \<open>k\<close> is the number of digits of \<open>s\<close>, and the value
  is \<open>s\<close> times ten to the power \<open>n - k\<close>. So \<open>Finite False 15 1\<close> is \<open>1.5\<close>, \<open>Finite False 1 1\<close> is
  \<open>1\<close>, and \<open>Finite True 25 3\<close> is \<open>-250\<close>. Strings are lists of code units below 256.
\<close>

datatype jsnumber =
    NaN
  | Infinity bool
  | Zero bool
  | Finite bool nat int

datatype kvkeypart =
    KBytes "8 word list"
  | KString string
  | KNumber jsnumber
  | KBigInt int
  | KBoolean bool

type_synonym kvkey = "kvkeypart list"

datatype error = TypeError | Thrown nat

definition digit_char :: "nat \<Rightarrow> char" where
  "digit_char d = char_of (48 + d)"

fun digits :: "nat \<Rightarrow> string" where
  "digits n = (if n < 10 then [digit_char n] else digits (n div 10) @ [digit_char (n mod 10)])"

declare digits.simps [simp del]

text \<open>\<^verbatim>\<open>Number::toString(x, 10)\<close> for a positive finite \<open>x\<close> given by \<open>s\<close> and \<open>n\<close>.\<close>

definition number_to_string_pos :: "nat \<Rightarrow> int \<Rightarrow> string" where
  "number_to_string_pos s n =
     (let ds = digits s; k = int (length ds) in
      if -5 \<le> n \<and> n \<le> 21 then
        (if n \<ge> k then ds @ replicate (nat (n - k)) (CHR ''0'')
         else if n > 0 then take (nat n) ds @ ''.'' @ drop (nat n) ds
         else ''0.'' @ replicate (nat (- n)) (CHR ''0'') @ ds)
      else
        (let exponentSign = (if n < 0 then ''-'' else ''+'');
             e = digits (nat (abs (n - 1))) in
         if k = 1 then ds @ ''e'' @ exponentSign @ e
         else take 1 ds @ ''.'' @ drop 1 ds @ ''e'' @ exponentSign @ e))"

definition number_to_string :: "jsnumber \<Rightarrow> string" where
  "number_to_string x =
     (case x of
        NaN \<Rightarrow> ''NaN''
      | Zero _ \<Rightarrow> ''0''
      | Infinity neg \<Rightarrow> (if neg then ''-Infinity'' else ''Infinity'')
      | Finite neg s n \<Rightarrow> (if neg then ''-'' else '''') @ number_to_string_pos s n)"

text \<open>\<^verbatim>\<open>JSON.stringify\<close> of a number: the decimal string when it is finite, \<^verbatim>\<open>null\<close> otherwise.\<close>

definition json_number :: "jsnumber \<Rightarrow> string" where
  "json_number x =
     (case x of
        NaN \<Rightarrow> ''null''
      | Infinity _ \<Rightarrow> ''null''
      | _ \<Rightarrow> number_to_string x)"

definition hex_char :: "nat \<Rightarrow> char" where
  "hex_char d = (if d < 10 then char_of (48 + d) else char_of (87 + d))"

text \<open>\<^verbatim>\<open>QuoteJSONString\<close>: the escapes of the table, \<^verbatim>\<open>\u00XX\<close> below the space, the code unit itself otherwise.\<close>

definition json_escape :: "char \<Rightarrow> string" where
  "json_escape c =
     (let n = (of_char c :: nat) in
      if n = 8 then [CHR 0x5C, CHR ''b'']
      else if n = 9 then [CHR 0x5C, CHR ''t'']
      else if n = 10 then [CHR 0x5C, CHR ''n'']
      else if n = 12 then [CHR 0x5C, CHR ''f'']
      else if n = 13 then [CHR 0x5C, CHR ''r'']
      else if n = 34 then [CHR 0x5C, CHR 0x22]
      else if n = 92 then [CHR 0x5C, CHR 0x5C]
      else if n < 32 then [CHR 0x5C, CHR ''u'', CHR ''0'', CHR ''0'', hex_char (n div 16), hex_char (n mod 16)]
      else [c])"

definition json_string :: "string \<Rightarrow> string" where
  "json_string str = [CHR 0x22] @ concat (map json_escape str) @ [CHR 0x22]"

text \<open>\<^verbatim>\<open>Array.prototype.join\<close> on strings.\<close>

fun join :: "string \<Rightarrow> string list \<Rightarrow> string" where
  "join sep [] = []"
| "join sep [x] = x"
| "join sep (x # y # ys) = x @ sep @ join sep (y # ys)"

text \<open>\<^verbatim>\<open>JSON.stringify\<close> of \<^verbatim>\<open>Array.from(v)\<close> for a \<^verbatim>\<open>Uint8Array v\<close>: an array of numbers.\<close>

definition json_bytes :: "8 word list \<Rightarrow> string" where
  "json_bytes bs = ''['' @ join '','' (map (\<lambda>b. digits (unat b)) bs) @ '']''"

text \<open>
  The two \<^verbatim>\<open>map\<close> steps of \<^verbatim>\<open>stringifyKey\<close> on one element. \<^verbatim>\<open>JSON.stringify\<close> throws a
  \<^verbatim>\<open>TypeError\<close> on a \<^verbatim>\<open>bigint\<close>.
\<close>

definition stringify_part :: "kvkeypart \<Rightarrow> error + string" where
  "stringify_part v =
     (case v of
        KBytes bs \<Rightarrow> Inr (json_bytes bs)
      | KString str \<Rightarrow> Inr (json_string str)
      | KNumber x \<Rightarrow> Inr (json_number x)
      | KBigInt i \<Rightarrow> Inl TypeError
      | KBoolean b \<Rightarrow> Inr (if b then ''true'' else ''false''))"

text \<open>The \<^verbatim>\<open>map\<close> stops at the first element that throws.\<close>

fun stringify_parts :: "kvkey \<Rightarrow> error + string list" where
  "stringify_parts [] = Inr []"
| "stringify_parts (v # vs) =
     (case stringify_part v of
        Inl e \<Rightarrow> Inl e
      | Inr x \<Rightarrow> (case stringify_parts vs of Inl e \<Rightarrow> Inl e | Inr xs \<Rightarrow> Inr (x # xs)))"

definition stringifyKey :: "kvkey \<Rightarrow> error + string" where
  "stringifyKey key =
     (case stringify_parts key of Inl e \<Rightarrow> Inl e | Inr xs \<Rightarrow> Inr (join ''.'' xs))"


section \<open>The memoizing engine\<close>

text \<open>
  A result of type \<^verbatim>\<open>R\<close> may be \<^verbatim>\<open>undefined\<close> or \<^verbatim>\<open>null\<close>; \<^verbatim>\<open>x != null\<close> is false for both.
\<close>

datatype 'r jsval = Undefined | Null | Val 'r

fun nullish :: "'r jsval \<Rightarrow> bool" where
  "nullish (Val _) = False"
| "nullish _ = True"

text \<open>
  The store \<^verbatim>\<open>db: Deno.Kv\<close> maps a key to a value and the options it was set with. The
  default access methods are \<^verbatim>\<open>(await db.get(key)).value\<close>, which is \<^verbatim>\<open>null\<close> for a key
  that has no entry, and \<^verbatim>\<open>db.set(key, value, {expireIn})\<close>. The methods of \<^verbatim>\<open>options.kv\<close>
  replace them; they are taken as functions of the store.
\<close>

type_synonym 'r kvstore = "kvkey \<rightharpoonup> ('r jsval \<times> int option)"

definition db_get :: "'r kvstore \<Rightarrow> kvkey \<Rightarrow> 'r jsval" where
  "db_get d k = (case d k of None \<Rightarrow> Null | Some (v, _) \<Rightarrow> v)"

definition db_set :: "'r kvstore \<Rightarrow> kvkey \<Rightarrow> 'r \<Rightarrow> int option \<Rightarrow> 'r kvstore" where
  "db_set d k v e = d(k \<mapsto> (Val v, e))"

record 'r kv_methods =
  kv_get :: "'r kvstore \<Rightarrow> kvkey \<Rightarrow> 'r jsval"
  kv_set :: "'r kvstore \<Rightarrow> kvkey \<Rightarrow> 'r \<Rightarrow> int option \<Rightarrow> 'r kvstore"

datatype 'r expire_in =
    ExpireInFn "'r jsval \<Rightarrow> kvkey \<Rightarrow> int option"
  | ExpireInNumber int

text \<open>
  \<^verbatim>\<open>KvMemoizeOptions\<close>: every member may be absent. The policy functions are taken to be pure
  and to return: they are functions of the result and the arguments. An absent \<^verbatim>\<open>options\<close>
  argument is the record with every member absent.
\<close>

record 'r kvMemoizeOptions =
  expireIn :: "'r expire_in option"
  shouldRecalculate :: "('r \<Rightarrow> kvkey \<Rightarrow> bool) option"
  shouldCache :: "('r \<Rightarrow> kvkey \<Rightarrow> bool) option"
  kv :: "'r kv_methods option"

text \<open>What the closure returned by \<^verbatim>\<open>kvMemoize\<close> captures besides \<^verbatim>\<open>db\<close>, \<^verbatim>\<open>fn\<close> and \<^verbatim>\<open>cache\<close>.\<close>

record 'r memo =
  key :: kvkey
  options :: "'r kvMemoizeOptions"

definition store_get :: "'r memo \<Rightarrow> 'r kvstore \<Rightarrow> kvkey \<Rightarrow> 'r jsval" where
  "store_get m = (case kv (options m) of Some ms \<Rightarrow> kv_get ms | None \<Rightarrow> db_get)"

definition store_set :: "'r memo \<Rightarrow> 'r kvstore \<Rightarrow> kvkey \<Rightarrow> 'r \<Rightarrow> int option \<Rightarrow> 'r kvstore" where
  "store_set m = (case kv (options m) of Some ms \<Rightarrow> kv_set ms | None \<Rightarrow> db_set)"

text \<open>
  JavaScript runs one job at a time, and the code between two \<^verbatim>\<open>await\<close>s runs without
  interruption. A promise made by the memoized function is therefore followed through the
  points at which its \<^verbatim>\<open>async\<close> body is suspended, and through what \<^verbatim>\<open>finally\<close> adds:
  \<^item> \<open>AwaitGet\<close>, \<open>AwaitFn\<close>, \<open>AwaitSet\<close>: the body waits for the store read, for \<^verbatim>\<open>fn\<close>, for
    the store write (of the result and expiration it was called with);
  \<^item> \<open>BodySettled\<close>: the body has returned or thrown, the \<^verbatim>\<open>finally\<close> callback has not run;
  \<^item> \<open>Removed\<close>: the callback has run \<^verbatim>\<open>cache.delete(cacheKey)\<close>; the promise that \<^verbatim>\<open>finally\<close>
    returned, which is the one that is registered and that the callers hold, has not
    settled yet (\<^verbatim>\<open>finally\<close> settles its promise in later jobs, after the callback has
    returned);
  \<^item> \<open>Settled\<close>: the callers' promise is fulfilled or rejected.
\<close>

datatype 'r settled = Fulfilled "'r jsval" | Rejected error

datatype 'r phase =
    AwaitGet
  | AwaitFn
  | AwaitSet 'r "int option"
  | BodySettled "'r settled"
  | Removed "'r settled"
  | Settled "'r settled"

fun registered :: "'r phase \<Rightarrow> bool" where
  "registered (Removed _) = False"
| "registered (Settled _) = False"
| "registered _ = True"

record 'r task =
  args :: kvkey
  cacheKey :: string
  phase :: "'r phase"

text \<open>Every call the engine makes to a collaborator is recorded, with the promise that made it.\<close>

datatype 'r effect =
    CallGet nat kvkey
  | CallShouldRecalculate nat 'r kvkey
  | CallFn nat kvkey
  | CallExpireIn nat "'r jsval" kvkey
  | CallShouldCache nat 'r kvkey
  | CallSet nat kvkey 'r "int option"
  | CacheDelete nat string

text \<open>
  The state: the \<^verbatim>\<open>cache\<close> map from fingerprints to promises, the promises made so far (a
  promise is its index), the store, and the record of calls.
\<close>

record 'r state =
  cache :: "string \<rightharpoonup> nat"
  promises :: "'r task list"
  db :: "'r kvstore"
  trace :: "'r effect list"

definition init_state :: "'r kvstore \<Rightarrow> 'r state" where
  "init_state d = \<lparr>cache = Map.empty, promises = [], db = d, trace = []\<rparr>"

definition advance :: "nat \<Rightarrow> 'r phase \<Rightarrow> 'r state \<Rightarrow> 'r state" where
  "advance p ph s = s\<lparr>promises := (promises s)[p := (promises s ! p)\<lparr>phase := ph\<rparr>]\<rparr>"

definition emit :: "'r effect list \<Rightarrow> 'r state \<Rightarrow> 'r state" where
  "emit es s = s\<lparr>trace := trace s @ es\<rparr>"

text \<open>
  The synchronous part of a call (lines 80 to 117): a registered promise is returned as it
  is; otherwise the body starts, which calls the store read at once, and the new promise
  is registered. A \<^verbatim>\<open>TypeError\<close> of \<^verbatim>\<open>stringifyKey\<close> is thrown to the caller.
\<close>

definition call :: "'r memo \<Rightarrow> 'r state \<Rightarrow> kvkey \<Rightarrow> error + nat \<times> 'r state" where
  "call m s a =
     (case stringifyKey a of
        Inl e \<Rightarrow> Inl e
      | Inr ck \<Rightarrow>
          (case cache s ck of
             Some cachedPromise \<Rightarrow> Inr (cachedPromise, s)
           | None \<Rightarrow>
               (let promise = length (promises s) in
                Inr (promise,
                     s\<lparr>cache := (cache s)(ck \<mapsto> promise),
                       promises := promises s @ [\<lparr>args = a, cacheKey = ck, phase = AwaitGet\<rparr>],
                       trace := trace s @ [CallGet promise (key m @ a)]\<rparr>))))"

text \<open>Lines 91 to 97: the body after the store read has given \<open>cachedResult\<close>.\<close>

definition after_get :: "'r memo \<Rightarrow> nat \<Rightarrow> kvkey \<Rightarrow> 'r jsval \<Rightarrow> 'r state \<Rightarrow> 'r state" where
  "after_get m p a cachedResult s =
     (case cachedResult of
        Val c \<Rightarrow>
          (case shouldRecalculate (options m) of
             None \<Rightarrow> advance p (BodySettled (Fulfilled cachedResult)) s
           | Some f \<Rightarrow>
               if \<not> f c a
               then advance p (BodySettled (Fulfilled cachedResult))
                      (emit [CallShouldRecalculate p c a] s)
               else advance p AwaitFn (emit [CallShouldRecalculate p c a, CallFn p a] s))
      | _ \<Rightarrow> advance p AwaitFn (emit [CallFn p a] s))"

text \<open>Lines 99 to 101.\<close>

definition expire_calls :: "'r memo \<Rightarrow> nat \<Rightarrow> 'r jsval \<Rightarrow> kvkey \<Rightarrow> 'r effect list" where
  "expire_calls m p result a =
     (case expireIn (options m) of
        Some (ExpireInFn f) \<Rightarrow> [CallExpireIn p result a]
      | _ \<Rightarrow> [])"

definition expire_value :: "'r memo \<Rightarrow> 'r jsval \<Rightarrow> kvkey \<Rightarrow> int option" where
  "expire_value m result a =
     (case expireIn (options m) of
        Some (ExpireInFn f) \<Rightarrow> f result a
      | Some (ExpireInNumber n) \<Rightarrow> Some n
      | None \<Rightarrow> None)"

text \<open>Lines 99 to 113: the body after \<^verbatim>\<open>fn\<close> has given \<open>result\<close>.\<close>

definition after_fn :: "'r memo \<Rightarrow> nat \<Rightarrow> kvkey \<Rightarrow> 'r jsval \<Rightarrow> 'r state \<Rightarrow> 'r state" where
  "after_fn m p a result s =
     (let s1 = emit (expire_calls m p result a) s;
          e = expire_value m result a in
      case result of
        Val r \<Rightarrow>
          (case shouldCache (options m) of
             None \<Rightarrow> advance p (AwaitSet r e) (emit [CallSet p (key m @ a) r e] s1)
           | Some g \<Rightarrow>
               if g r a
               then advance p (AwaitSet r e)
                      (emit [CallShouldCache p r a, CallSet p (key m @ a) r e] s1)
               else advance p (BodySettled (Fulfilled result)) (emit [CallShouldCache p r a] s1))
      | _ \<Rightarrow> advance p (BodySettled (Fulfilled result)) s1)"

text \<open>
  What can happen next: a call; a pending store read, \<^verbatim>\<open>fn\<close> or store write settles; the
  \<^verbatim>\<open>finally\<close> callback of a settled body runs; the promise returned by \<^verbatim>\<open>finally\<close> settles. The
  outcome of \<^verbatim>\<open>fn\<close> and the failure of a store access are given with the event. A store read
  that succeeds gives what the store holds when it settles, a store write that succeeds
  changes the store when it settles, and one that fails leaves the store as it is. An event
  that does not apply to the state leaves it as it is.
\<close>

datatype 'r event =
    Call kvkey
  | GetSettles nat "error option"
  | FnSettles nat "'r settled"
  | SetSettles nat "error option"
  | Finally nat
  | Resolve nat

fun step :: "'r memo \<Rightarrow> 'r event \<Rightarrow> 'r state \<Rightarrow> 'r state" where
  "step m (Call a) s = (case call m s a of Inl e \<Rightarrow> s | Inr (p, s') \<Rightarrow> s')"
| "step m (GetSettles p out) s =
     (if p < length (promises s) \<and> phase (promises s ! p) = AwaitGet then
        (case out of
           Some e \<Rightarrow> advance p (BodySettled (Rejected e)) s
         | None \<Rightarrow>
             after_get m p (args (promises s ! p))
               (store_get m (db s) (key m @ args (promises s ! p))) s)
      else s)"
| "step m (FnSettles p out) s =
     (if p < length (promises s) \<and> phase (promises s ! p) = AwaitFn then
        (case out of
           Rejected e \<Rightarrow> advance p (BodySettled (Rejected e)) s
         | Fulfilled result \<Rightarrow> after_fn m p (args (promises s ! p)) result s)
      else s)"
| "step m (SetSettles p out) s =
     (if p < length (promises s) then
        (case phase (promises s ! p) of
           AwaitSet r e \<Rightarrow>
             (case out of
                Some err \<Rightarrow> advance p (BodySettled (Rejected err)) s
              | None \<Rightarrow>
                  advance p (BodySettled (Fulfilled (Val r)))
                    (s\<lparr>db := store_set m (db s) (key m @ args (promises s ! p)) r e\<rparr>))
         | _ \<Rightarrow> s)
      else s)"
| "step m (Finally p) s =
     (if p < length (promises s) then
        (case phase (promises s ! p) of
           BodySettled out \<Rightarrow>
             advance p (Removed out)
               (s\<lparr>cache := (cache s)(cacheKey (promises s ! p) := None),
                  trace := trace s @ [CacheDelete p (cacheKey (promises s ! p))]\<rparr>)
         | _ \<Rightarrow> s)
      else s)"
| "step m (Resolve p) s =
     (if p < length (promises s) then
        (case phase (promises s ! p) of
           Removed out \<Rightarrow> advance p (Settled out) s
         | _ \<Rightarrow> s)
      else s)"

fun exec :: "'r memo \<Rightarrow> 'r state \<Rightarrow> 'r event list \<Rightarrow> 'r state" where
  "exec m s [] = s"
| "exec m s (ev # evs) = exec m (step m ev s) evs"

text \<open>The phase of a promise; a promise that was never made has none.\<close>

definition phase_of :: "'r state \<Rightarrow> nat \<Rightarrow> 'r phase option" where
  "phase_of s p = (if p < length (promises s) then Some (phase (promises s ! p)) else None)"

subsection \<open>Counting the calls of one promise\<close>

fun is_get :: "nat \<Rightarrow> 'r effect \<Rightarrow> bool" where
  "is_get p (CallGet q _) = (q = p)"
| "is_get p _ = False"

fun is_fn :: "nat \<Rightarrow> 'r effect \<Rightarrow> bool" where
  "is_fn p (CallFn q _) = (q = p)"
| "is_fn p _ = False"

fun is_set :: "nat \<Rightarrow> 'r effect \<Rightarrow> bool" where
  "is_set p (CallSet q _ _ _) = (q = p)"
| "is_set p _ = False"

fun is_delete :: "nat \<Rightarrow> 'r effect \<Rightarrow> bool" where
  "is_delete p (CacheDelete q _) = (q = p)"
| "is_delete p _ = False"

fun is_expire :: "nat \<Rightarrow> 'r effect \<Rightarrow> bool" where
  "is_expire p (CallExpireIn q _ _) = (q = p)"
| "is_expire p _ = False"

definition count :: "('a \<Rightarrow> bool) \<Rightarrow> 'a list \<Rightarrow> nat" where
  "count P xs = length (filter P xs)"

section \<open>Invariants of the engine\<close>

text \<open>The promise that made a call.\<close>

fun pid_of :: "'r effect \<Rightarrow> nat" where
  "pid_of (CallGet p _) = p"
| "pid_of (CallShouldRecalculate p _ _) = p"
| "pid_of (CallFn p _) = p"
| "pid_of (CallExpireIn p _ _) = p"
| "pid_of (CallShouldCache p _ _) = p"
| "pid_of (CallSet p _ _ _) = p"
| "pid_of (CacheDelete p _) = p"

text \<open>
  The \<^verbatim>\<open>cache\<close> map holds exactly the promises whose \<^verbatim>\<open>finally\<close> callback has not run, each
  under its own fingerprint.
\<close>

definition inv_cache :: "'r state \<Rightarrow> bool" where
  "inv_cache s \<longleftrightarrow>
     (\<forall>ck p. cache s ck = Some p \<longrightarrow>
        p < length (promises s) \<and> cacheKey (promises s ! p) = ck \<and> registered (phase (promises s ! p))) \<and>
     (\<forall>p < length (promises s). registered (phase (promises s ! p)) \<longrightarrow>
        cache s (cacheKey (promises s ! p)) = Some p)"

text \<open>The fingerprint of a promise is the one \<^verbatim>\<open>stringifyKey\<close> gave for its arguments.\<close>

definition inv_keys :: "'r state \<Rightarrow> bool" where
  "inv_keys s \<longleftrightarrow>
     (\<forall>p < length (promises s). stringifyKey (args (promises s ! p)) = Inr (cacheKey (promises s ! p)))"

text \<open>
  How often a promise has called \<^verbatim>\<open>fn\<close>, the store write and \<^verbatim>\<open>cache.delete\<close>, by its phase; it
  has called the store read once.
\<close>

fun calls_ok :: "'r phase \<Rightarrow> nat \<Rightarrow> nat \<Rightarrow> nat \<Rightarrow> bool" where
  "calls_ok AwaitGet fns sets dels \<longleftrightarrow> fns = 0 \<and> sets = 0 \<and> dels = 0"
| "calls_ok AwaitFn fns sets dels \<longleftrightarrow> fns = 1 \<and> sets = 0 \<and> dels = 0"
| "calls_ok (AwaitSet _ _) fns sets dels \<longleftrightarrow> fns = 1 \<and> sets = 1 \<and> dels = 0"
| "calls_ok (BodySettled _) fns sets dels \<longleftrightarrow> fns \<le> 1 \<and> sets \<le> 1 \<and> dels = 0"
| "calls_ok (Removed _) fns sets dels \<longleftrightarrow> fns \<le> 1 \<and> sets \<le> 1 \<and> dels = 1"
| "calls_ok (Settled _) fns sets dels \<longleftrightarrow> fns \<le> 1 \<and> sets \<le> 1 \<and> dels = 1"

definition counts_ok :: "'r state \<Rightarrow> nat \<Rightarrow> bool" where
  "counts_ok s p =
     (if p < length (promises s)
      then count (is_get p) (trace s) = 1 \<and>
           calls_ok (phase (promises s ! p)) (count (is_fn p) (trace s))
             (count (is_set p) (trace s)) (count (is_delete p) (trace s))
      else count (is_get p) (trace s) = 0 \<and> count (is_fn p) (trace s) = 0 \<and>
           count (is_set p) (trace s) = 0 \<and> count (is_delete p) (trace s) = 0)"

text \<open>
  A step of the body of promise \<open>p\<close>: its phase changes, it stays registered, calls of \<open>p\<close> are
  recorded and the store may be written.
\<close>

definition progress :: "'r state \<Rightarrow> 'r state \<Rightarrow> nat \<Rightarrow> bool" where
  "progress s s' p \<longleftrightarrow>
     p < length (promises s) \<and> registered (phase (promises s ! p)) \<and>
     (\<exists>ph es d. s' = advance p ph (emit es (s\<lparr>db := d\<rparr>)) \<and> registered ph \<and>
        (\<forall>e \<in> set es. pid_of e = p))"

text \<open>The outcome of a promise, from the moment its body has settled.\<close>

fun outcome :: "'r phase \<Rightarrow> 'r settled option" where
  "outcome (BodySettled out) = Some out"
| "outcome (Removed out) = Some out"
| "outcome (Settled out) = Some out"
| "outcome _ = None"

text \<open>The promise a call returns to its caller.\<close>

definition promise_of :: "error + nat \<times> 'r state \<Rightarrow> error + nat" where
  "promise_of r = (case r of Inl e \<Rightarrow> Inl e | Inr (p, s) \<Rightarrow> Inr p)"

text \<open>
  Once \<^verbatim>\<open>fn\<close> has answered, a body calls nothing but the store write, already recorded, and
  \<^verbatim>\<open>cache.delete\<close>.
\<close>

fun past_fn :: "'r phase \<Rightarrow> bool" where
  "past_fn AwaitGet = False"
| "past_fn AwaitFn = False"
| "past_fn _ = True"

fun is_call :: "'r effect \<Rightarrow> bool" where
  "is_call (CacheDelete _ _) = False"
| "is_call _ = True"

text \<open>How often a promise has called the \<^verbatim>\<open>expireIn\<close> function.\<close>

definition expire_ok :: "'r state \<Rightarrow> nat \<Rightarrow> bool" where
  "expire_ok s p =
     (if p < length (promises s) \<and> past_fn (phase (promises s ! p))
      then count (is_expire p) (trace s) \<le> 1
      else count (is_expire p) (trace s) = 0)"


section \<open>Concrete inputs\<close>

text \<open>The numbers \<open>1\<close>, \<open>2\<close>, \<open>5\<close> and \<open>1.5\<close>.\<close>

definition num1 :: kvkeypart where "num1 = KNumber (Finite False 1 1)"
definition num2 :: kvkeypart where "num2 = KNumber (Finite False 2 1)"
definition num5 :: kvkeypart where "num5 = KNumber (Finite False 5 1)"
definition num1_5 :: kvkeypart where "num1_5 = KNumber (Finite False 15 1)"

text \<open>
  The memoized function of the tests, \<^verbatim>\<open>kvMemoize(db, ["sums"], fn)\<close> with no options, and the
  argument list \<^verbatim>\<open>(1, 2)\<close>, whose fingerprint is \<^verbatim>\<open>1.2\<close>.
\<close>

definition no_options :: "int kvMemoizeOptions" where
  "no_options = \<lparr>expireIn = None, shouldRecalculate = None, shouldCache = None, kv = None\<rparr>"

definition m_sums :: "int memo" where
  "m_sums = \<lparr>key = [KString ''sums''], options = no_options\<rparr>"

definition a12 :: kvkey where "a12 = [num1, num2]"



text \<open>
  On an empty store: the first call is made; the read has missed and \<^verbatim>\<open>fn\<close> is running; \<^verbatim>\<open>fn\<close>
  gave \<open>3\<close>, it was written and the promise has settled.
\<close>

definition miss1 :: "int state" where
  "miss1 = exec m_sums (init_state Map.empty) [Call a12]"

definition miss_fn :: "int state" where
  "miss_fn = exec m_sums miss1 [GetSettles 0 None]"

definition miss_done :: "int state" where
  "miss_done = exec m_sums miss1
     [GetSettles 0 None, FnSettles 0 (Fulfilled (Val 3)), SetSettles 0 None, Finally 0, Resolve 0]"

text \<open>
  On a store that holds \<open>3\<close> under \<^verbatim>\<open>["sums", 1, 2]\<close>: the first call is made; the read has hit
  and the \<^verbatim>\<open>finally\<close> callback has run; the promise has settled.
\<close>

definition db_hit :: "int kvstore" where
  "db_hit = Map.empty([KString ''sums'', num1, num2] \<mapsto> (Val 3, None))"

definition hit1 :: "int state" where
  "hit1 = exec m_sums (init_state db_hit) [Call a12]"

definition hit_removed :: "int state" where
  "hit_removed = exec m_sums hit1 [GetSettles 0 None, Finally 0]"

definition hit_done :: "int state" where
  "hit_done = exec m_sums hit1 [GetSettles 0 None, Finally 0, Resolve 0]"

text \<open>
  A memoized function with every policy set: the expiration is a function, a negative
  cached value is recalculated, and only a positive result is cached. The store holds the
  stale value \<open>-1\<close> for the arguments \<^verbatim>\<open>(1, 2)\<close>.
\<close>

definition policy_options :: "int kvMemoizeOptions" where
  "policy_options =
     \<lparr>expireIn = Some (ExpireInFn (\<lambda>result a. Some 1000)),
      shouldRecalculate = Some (\<lambda>result a. result < 0),
      shouldCache = Some (\<lambda>result a. 0 < result),
      kv = None\<rparr>"

definition m_policy :: "int memo" where
  "m_policy = \<lparr>key = [KString ''p''], options = policy_options\<rparr>"

definition db_stale :: "int kvstore" where
  "db_stale = Map.empty([KString ''p'', num1, num2] \<mapsto> (Val (- 1), None))"

text \<open>The first call is made; the stale value was read and \<^verbatim>\<open>fn\<close> is running.\<close>

definition stale1 :: "int state" where
  "stale1 = exec m_policy (init_state db_stale) [Call a12]"

definition stale_fn :: "int state" where
  "stale_fn = exec m_policy (init_state db_stale) [Call a12, GetSettles 0 None]"

text \<open>
  \<^verbatim>\<open>fn\<close> gave \<^verbatim>\<open>null\<close> and the promise has settled; then a second call with the same arguments
  ran to its end, \<^verbatim>\<open>fn\<close> giving \<^verbatim>\<open>null\<close> again.
\<close>

definition stale_done :: "int state" where
  "stale_done = exec m_policy stale_fn [FnSettles 0 (Fulfilled Null), Finally 0, Resolve 0]"

definition stale_next :: "int state" where
  "stale_next = exec m_policy stale_done
     [Call a12, GetSettles 1 None, FnSettles 1 (Fulfilled Null), Finally 1, Resolve 1]"

text \<open>On an empty store, with the policies: \<^verbatim>\<open>fn\<close> is running; \<^verbatim>\<open>fn\<close> gave \<^verbatim>\<open>undefined\<close>.\<close>

definition policy_fn :: "int state" where
  "policy_fn = exec m_policy (init_state Map.empty) [Call a12, GetSettles 0 None]"

definition policy_undefined :: "int state" where
  "policy_undefined = step m_policy (FnSettles 0 (Fulfilled Undefined)) policy_fn"

text \<open>With the policies, \<^verbatim>\<open>fn\<close> gave \<open>5\<close> and the store write is pending.\<close>

definition policy_set :: "int state" where
  "policy_set = exec m_policy (init_state Map.empty)
     [Call a12, GetSettles 0 None, FnSettles 0 (Fulfilled (Val 5))]"

text \<open>
  A memoized function with its own store methods, as in the tests of the repository that
  pass \<^verbatim>\<open>kv: { get, set }\<close> over a \<^verbatim>\<open>Map\<close>: \<^verbatim>\<open>get\<close> gives \<^verbatim>\<open>undefined\<close> for a missing key and \<^verbatim>\<open>set\<close>
  keeps the value and drops the expiration. The expiration is the number \<open>500\<close>. On an empty
  store the first call is made, the read has missed and \<^verbatim>\<open>fn\<close> is running.
\<close>

definition custom_kv :: "int kv_methods" where
  "custom_kv =
     \<lparr>kv_get = (\<lambda>d k. case d k of None \<Rightarrow> Undefined | Some (v, e) \<Rightarrow> v),
      kv_set = (\<lambda>d k v e. d(k \<mapsto> (Val v, None)))\<rparr>"

definition m_custom :: "int memo" where
  "m_custom = \<lparr>key = [KString ''custom''],
     options = \<lparr>expireIn = Some (ExpireInNumber 500), shouldRecalculate = None,
                shouldCache = None, kv = Some custom_kv\<rparr>\<rparr>"

definition custom_fn :: "int state" where
  "custom_fn = exec m_custom (init_state Map.empty) [Call a12, GetSettles 0 None]"

section \<open>Basic facts\<close>

lemma advance_simps [simp]:
  "cache (advance p ph s) = cache s"
  "db (advance p ph s) = db s"
  "trace (advance p ph s) = trace s"
  "length (promises (advance p ph s)) = length (promises s)"
  by (simp_all add: advance_def)

lemma advance_nth [simp]:
  "q \<noteq> p \<Longrightarrow> promises (advance p ph s) ! q = promises s ! q"
  "p < length (promises s) \<Longrightarrow> promises (advance p ph s) ! p = (promises s ! p)\<lparr>phase := ph\<rparr>"
  by (simp_all add: advance_def)

lemma emit_simps [simp]:
  "cache (emit es s) = cache s"
  "db (emit es s) = db s"
  "trace (emit es s) = trace s @ es"
  "promises (emit es s) = promises s"
  by (simp_all add: emit_def)

lemma emit_Nil [simp]: "emit [] s = s"
  by (simp add: emit_def)

lemma count_simps [simp]:
  "count P [] = 0"
  "count P (x # xs) = (if P x then Suc (count P xs) else count P xs)"
  "count P (xs @ ys) = count P xs + count P ys"
  by (simp_all add: count_def)

lemma is_pid:
  "is_get q e \<Longrightarrow> pid_of e = q"
  "is_fn q e \<Longrightarrow> pid_of e = q"
  "is_set q e \<Longrightarrow> pid_of e = q"
  "is_delete q e \<Longrightarrow> pid_of e = q"
  by (cases e; simp)+

lemma count_other:
  assumes "\<forall>e \<in> set es. pid_of e \<noteq> q"
  shows "count (is_get q) es = 0" "count (is_fn q) es = 0"
    "count (is_set q) es = 0" "count (is_delete q) es = 0"
  using assms by (auto simp: count_def filter_empty_conv dest: is_pid)

text \<open>The shape of the two continuations of the body.\<close>

lemma after_get_shape:
  "\<exists>ph es. after_get m p a c s = advance p ph (emit es s) \<and> registered ph \<and>
     (\<forall>e \<in> set es. pid_of e = p)"
proof (cases c)
  case (Val v)
  show ?thesis
  proof (cases "shouldRecalculate (options m)")
    case None
    with Val have "after_get m p a c s = advance p (BodySettled (Fulfilled c)) (emit [] s)"
      by (simp add: after_get_def)
    then show ?thesis by (intro exI[of _ "BodySettled (Fulfilled c)"] exI[of _ "[]"]) simp
  next
    case (Some f)
    show ?thesis
    proof (cases "f v a")
      case True
      with Val Some have "after_get m p a c s =
          advance p AwaitFn (emit [CallShouldRecalculate p v a, CallFn p a] s)"
        by (simp add: after_get_def)
      then show ?thesis
        by (intro exI[of _ AwaitFn] exI[of _ "[CallShouldRecalculate p v a, CallFn p a]"]) simp
    next
      case False
      with Val Some have "after_get m p a c s =
          advance p (BodySettled (Fulfilled c)) (emit [CallShouldRecalculate p v a] s)"
        by (simp add: after_get_def)
      then show ?thesis
        by (intro exI[of _ "BodySettled (Fulfilled c)"] exI[of _ "[CallShouldRecalculate p v a]"]) simp
    qed
  qed
next
  case Undefined
  then have "after_get m p a c s = advance p AwaitFn (emit [CallFn p a] s)"
    by (simp add: after_get_def)
  then show ?thesis by (intro exI[of _ AwaitFn] exI[of _ "[CallFn p a]"]) simp
next
  case Null
  then have "after_get m p a c s = advance p AwaitFn (emit [CallFn p a] s)"
    by (simp add: after_get_def)
  then show ?thesis by (intro exI[of _ AwaitFn] exI[of _ "[CallFn p a]"]) simp
qed

lemma expire_calls_pid: "\<forall>e \<in> set (expire_calls m p r a). pid_of e = p"
  by (simp add: expire_calls_def split: option.splits expire_in.splits)

lemma emit_emit: "emit es' (emit es s) = emit (es @ es') s"
  by (simp add: emit_def)

lemma after_fn_shape:
  "\<exists>ph es. after_fn m p a r s = advance p ph (emit es s) \<and> registered ph \<and>
     (\<forall>e \<in> set es. pid_of e = p)"
proof -
  let ?x = "expire_calls m p r a" and ?e = "expire_value m r a"
  note xs = expire_calls_pid[of m p r a]
  show ?thesis
  proof (cases r)
    case (Val v)
    show ?thesis
    proof (cases "shouldCache (options m)")
      case None
      with Val have "after_fn m p a r s =
          advance p (AwaitSet v ?e) (emit (?x @ [CallSet p (key m @ a) v ?e]) s)"
        by (simp add: after_fn_def Let_def emit_emit)
      with xs show ?thesis
        by (intro exI[of _ "AwaitSet v ?e"] exI[of _ "?x @ [CallSet p (key m @ a) v ?e]"]) simp
    next
      case (Some g)
      show ?thesis
      proof (cases "g v a")
        case True
        with Val Some have "after_fn m p a r s = advance p (AwaitSet v ?e)
            (emit (?x @ [CallShouldCache p v a, CallSet p (key m @ a) v ?e]) s)"
          by (simp add: after_fn_def Let_def emit_emit)
        with xs show ?thesis
          by (intro exI[of _ "AwaitSet v ?e"]
              exI[of _ "?x @ [CallShouldCache p v a, CallSet p (key m @ a) v ?e]"]) simp
      next
        case False
        with Val Some have "after_fn m p a r s = advance p (BodySettled (Fulfilled r))
            (emit (?x @ [CallShouldCache p v a]) s)"
          by (simp add: after_fn_def Let_def emit_emit)
        with xs show ?thesis
          by (intro exI[of _ "BodySettled (Fulfilled r)"] exI[of _ "?x @ [CallShouldCache p v a]"]) simp
      qed
    qed
  next
    case Undefined
    then have "after_fn m p a r s = advance p (BodySettled (Fulfilled r)) (emit ?x s)"
      by (simp add: after_fn_def Let_def)
    with xs show ?thesis by (intro exI[of _ "BodySettled (Fulfilled r)"] exI[of _ ?x]) simp
  next
    case Null
    then have "after_fn m p a r s = advance p (BodySettled (Fulfilled r)) (emit ?x s)"
      by (simp add: after_fn_def Let_def)
    with xs show ?thesis by (intro exI[of _ "BodySettled (Fulfilled r)"] exI[of _ ?x]) simp
  qed
qed


section \<open>The cache invariant is kept\<close>

lemma inv_cacheD1:
  "inv_cache s \<Longrightarrow> cache s ck = Some p \<Longrightarrow>
   p < length (promises s) \<and> cacheKey (promises s ! p) = ck \<and> registered (phase (promises s ! p))"
  unfolding inv_cache_def by blast

lemma inv_cacheD2:
  "inv_cache s \<Longrightarrow> p < length (promises s) \<Longrightarrow> registered (phase (promises s ! p)) \<Longrightarrow>
   cache s (cacheKey (promises s ! p)) = Some p"
  unfolding inv_cache_def by blast

lemma inv_cache_new:
  assumes inv: "inv_cache s" and free: "cache s ck = None"
  shows "inv_cache (s\<lparr>cache := (cache s)(ck \<mapsto> length (promises s)),
                      promises := promises s @ [\<lparr>args = a, cacheKey = ck, phase = AwaitGet\<rparr>],
                      trace := tr\<rparr>)"
    (is "inv_cache ?s'")
  unfolding inv_cache_def
proof (rule conjI; intro allI impI)
  fix ck' p assume h: "cache ?s' ck' = Some p"
  show "p < length (promises ?s') \<and> cacheKey (promises ?s' ! p) = ck' \<and> registered (phase (promises ?s' ! p))"
  proof (cases "ck' = ck")
    case True
    with h show ?thesis by auto
  next
    case False
    with h have "cache s ck' = Some p" by simp
    from inv_cacheD1[OF inv this] show ?thesis by (simp add: nth_append)
  qed
next
  fix p assume lt: "p < length (promises ?s')" and reg: "registered (phase (promises ?s' ! p))"
  show "cache ?s' (cacheKey (promises ?s' ! p)) = Some p"
  proof (cases "p < length (promises s)")
    case True
    with reg have "registered (phase (promises s ! p))" by (simp add: nth_append)
    from inv_cacheD2[OF inv True this] have c: "cache s (cacheKey (promises s ! p)) = Some p" .
    with free have "cacheKey (promises s ! p) \<noteq> ck" by auto
    with c True show ?thesis by (simp add: nth_append)
  next
    case False
    with lt have "p = length (promises s)" by simp
    then show ?thesis by simp
  qed
qed

lemma inv_cache_advance:
  assumes inv: "inv_cache s" and lt: "p < length (promises s)"
    and reg: "registered (phase (promises s ! p)) = registered ph"
  shows "inv_cache (advance p ph s)"
  unfolding inv_cache_def
proof (rule conjI; intro allI impI)
  fix ck q assume "cache (advance p ph s) ck = Some q"
  then have "cache s ck = Some q" by simp
  from inv_cacheD1[OF inv this] reg lt show
    "q < length (promises (advance p ph s)) \<and> cacheKey (promises (advance p ph s) ! q) = ck \<and>
     registered (phase (promises (advance p ph s) ! q))"
    by (cases "q = p") auto
next
  fix q assume q: "q < length (promises (advance p ph s))"
    and r: "registered (phase (promises (advance p ph s) ! q))"
  have "registered (phase (promises s ! q))"
    using q r reg by (cases "q = p") simp_all
  with inv_cacheD2[OF inv, of q] q lt
  show "cache (advance p ph s) (cacheKey (promises (advance p ph s) ! q)) = Some q"
    by (cases "q = p") auto
qed

lemma inv_cache_frame:
  "inv_cache s \<Longrightarrow> cache s' = cache s \<Longrightarrow> promises s' = promises s \<Longrightarrow> inv_cache s'"
  by (simp add: inv_cache_def)

lemma inv_cache_finally:
  assumes inv: "inv_cache s" and lt: "p < length (promises s)"
    and ph: "phase (promises s ! p) = BodySettled out"
  shows "inv_cache (advance p (Removed out)
           (s\<lparr>cache := (cache s)(cacheKey (promises s ! p) := None), trace := tr\<rparr>))"
    (is "inv_cache ?s'")
  unfolding inv_cache_def
proof (rule conjI; intro allI impI)
  fix ck q assume h: "cache ?s' ck = Some q"
  then have ne: "ck \<noteq> cacheKey (promises s ! p)" and c: "cache s ck = Some q"
    by (auto split: if_splits)
  from inv_cacheD1[OF inv c] have q: "q < length (promises s)" "cacheKey (promises s ! q) = ck"
    "registered (phase (promises s ! q))" by simp_all
  with ne have "q \<noteq> p" by auto
  with q show "q < length (promises ?s') \<and> cacheKey (promises ?s' ! q) = ck \<and>
     registered (phase (promises ?s' ! q))"
    by (simp add: advance_def)
next
  fix q assume q: "q < length (promises ?s')" and r: "registered (phase (promises ?s' ! q))"
  from q have q': "q < length (promises s)" by (simp add: advance_def)
  from r q' have ne: "q \<noteq> p" by (auto simp: advance_def)
  with r q' have rq: "registered (phase (promises s ! q))" by (simp add: advance_def)
  from inv_cacheD2[OF inv q' rq] have c: "cache s (cacheKey (promises s ! q)) = Some q" .
  have "registered (phase (promises s ! p))" using ph by simp
  from inv_cacheD2[OF inv lt this] have "cache s (cacheKey (promises s ! p)) = Some p" .
  with c ne have "cacheKey (promises s ! q) \<noteq> cacheKey (promises s ! p)" by auto
  with c ne q' show "cache ?s' (cacheKey (promises ?s' ! q)) = Some q"
    by (simp add: advance_def)
qed

lemma progress_advance:
  "p < length (promises s) \<Longrightarrow> registered (phase (promises s ! p)) \<Longrightarrow> registered ph \<Longrightarrow>
   progress s (advance p ph s) p"
  unfolding progress_def
  by (intro conjI exI[of _ ph] exI[of _ "[]"] exI[of _ "db s"]) simp_all

lemma progress_after_get:
  assumes "p < length (promises s)" "registered (phase (promises s ! p))"
  shows "progress s (after_get m p a c s) p"
proof -
  from after_get_shape[of m p a c s] obtain ph es where
    "after_get m p a c s = advance p ph (emit es s)" "registered ph" "\<forall>e \<in> set es. pid_of e = p"
    by blast
  with assms show ?thesis unfolding progress_def
    by (intro conjI exI[of _ ph] exI[of _ es] exI[of _ "db s"]) simp_all
qed

lemma progress_after_fn:
  assumes "p < length (promises s)" "registered (phase (promises s ! p))"
  shows "progress s (after_fn m p a r s) p"
proof -
  from after_fn_shape[of m p a r s] obtain ph es where
    "after_fn m p a r s = advance p ph (emit es s)" "registered ph" "\<forall>e \<in> set es. pid_of e = p"
    by blast
  with assms show ?thesis unfolding progress_def
    by (intro conjI exI[of _ ph] exI[of _ es] exI[of _ "db s"]) simp_all
qed

lemma progress_set:
  assumes "p < length (promises s)" "registered (phase (promises s ! p))" "registered ph"
  shows "progress s (advance p ph (s\<lparr>db := d\<rparr>)) p"
  using assms unfolding progress_def
  by (intro conjI exI[of _ ph] exI[of _ "[]"] exI[of _ d]) simp_all

lemma step_shape:
  "step m ev s = s \<or>
   (\<exists>a ck. ev = Call a \<and> stringifyKey a = Inr ck \<and> cache s ck = None \<and>
      step m ev s = s\<lparr>cache := (cache s)(ck \<mapsto> length (promises s)),
        promises := promises s @ [\<lparr>args = a, cacheKey = ck, phase = AwaitGet\<rparr>],
        trace := trace s @ [CallGet (length (promises s)) (key m @ a)]\<rparr>) \<or>
   (\<exists>p. progress s (step m ev s) p) \<or>
   (\<exists>p out. ev = Finally p \<and> p < length (promises s) \<and> phase (promises s ! p) = BodySettled out \<and>
      step m ev s = advance p (Removed out)
        (s\<lparr>cache := (cache s)(cacheKey (promises s ! p) := None),
           trace := trace s @ [CacheDelete p (cacheKey (promises s ! p))]\<rparr>)) \<or>
   (\<exists>p out. ev = Resolve p \<and> p < length (promises s) \<and> phase (promises s ! p) = Removed out \<and>
      step m ev s = advance p (Settled out) s)"
proof (cases ev)
  case (Call a)
  then show ?thesis by (auto simp: call_def Let_def split: sum.splits option.splits)
next
  case (GetSettles p out)
  show ?thesis
  proof (cases "p < length (promises s) \<and> phase (promises s ! p) = AwaitGet")
    case True
    then have "progress s (step m ev s) p"
      using GetSettles by (cases out) (simp_all add: progress_advance progress_after_get)
    then show ?thesis by blast
  next
    case False
    with GetSettles show ?thesis by auto
  qed
next
  case (FnSettles p out)
  show ?thesis
  proof (cases "p < length (promises s) \<and> phase (promises s ! p) = AwaitFn")
    case True
    then have "progress s (step m ev s) p"
      using FnSettles by (cases out) (simp_all add: progress_advance progress_after_fn)
    then show ?thesis by blast
  next
    case False
    with FnSettles show ?thesis by auto
  qed
next
  case (SetSettles p out)
  show ?thesis
  proof (cases "p < length (promises s) \<and> (\<exists>r e. phase (promises s ! p) = AwaitSet r e)")
    case True
    then have "progress s (step m ev s) p"
      using SetSettles by (cases out) (auto simp: progress_advance progress_set)
    then show ?thesis by blast
  next
    case False
    with SetSettles show ?thesis by (auto split: phase.splits)
  qed
next
  case (Finally p)
  then show ?thesis by (auto split: phase.splits)
next
  case (Resolve p)
  then show ?thesis by (auto split: phase.splits)
qed

lemma inv_cache_progress: "inv_cache s \<Longrightarrow> progress s s' p \<Longrightarrow> inv_cache s'"
  unfolding progress_def
  by (auto intro!: inv_cache_advance intro: inv_cache_frame)

lemma inv_cache_step: "inv_cache s \<Longrightarrow> inv_cache (step m ev s)"
  using step_shape[of m ev s]
  by (elim disjE exE conjE)
     (simp_all add: inv_cache_new inv_cache_progress inv_cache_finally inv_cache_advance)

lemma inv_keys_progress: "inv_keys s \<Longrightarrow> progress s s' p \<Longrightarrow> inv_keys s'"
  unfolding progress_def inv_keys_def
  by (auto simp: advance_def nth_list_update)

lemma inv_keys_step: "inv_keys s \<Longrightarrow> inv_keys (step m ev s)"
  using step_shape[of m ev s]
  apply (elim disjE exE conjE)
      apply simp
     apply (simp add: inv_keys_def nth_append)
    apply (simp add: inv_keys_progress)
   apply (simp add: inv_keys_def advance_def nth_list_update)
  apply (simp add: inv_keys_def advance_def nth_list_update)
  done


section \<open>The counts are kept\<close>

lemma counts_ok_progress_other:
  assumes "progress s s' p" "q \<noteq> p"
  shows "counts_ok s' q = counts_ok s q"
proof -
  from assms(1) obtain ph es d where s': "s' = advance p ph (emit es (s\<lparr>db := d\<rparr>))"
    and es: "\<forall>e \<in> set es. pid_of e = p"
    unfolding progress_def by blast
  from es assms(2) have "\<forall>e \<in> set es. pid_of e \<noteq> q" by auto
  note z = count_other[OF this]
  show ?thesis using assms(2) by (simp add: s' counts_ok_def z)
qed

lemma counts_ok_after_get:
  "p < length (promises s) \<Longrightarrow> phase (promises s ! p) = AwaitGet \<Longrightarrow> counts_ok s p \<Longrightarrow>
   counts_ok (after_get m p a c s) p"
  by (simp add: counts_ok_def after_get_def split: jsval.splits option.splits)

lemma expire_calls_count [simp]:
  "count (is_get q) (expire_calls m p r a) = 0"
  "count (is_fn q) (expire_calls m p r a) = 0"
  "count (is_set q) (expire_calls m p r a) = 0"
  "count (is_delete q) (expire_calls m p r a) = 0"
  by (simp_all add: expire_calls_def split: option.splits expire_in.splits)

lemma counts_ok_after_fn:
  "p < length (promises s) \<Longrightarrow> phase (promises s ! p) = AwaitFn \<Longrightarrow> counts_ok s p \<Longrightarrow>
   counts_ok (after_fn m p a r s) p"
  by (simp add: counts_ok_def after_fn_def Let_def split: jsval.splits option.splits)

lemma counts_ok_call: "counts_ok s q \<Longrightarrow> counts_ok (step m (Call a) s) q"
proof -
  assume c: "counts_ok s q"
  show ?thesis
  proof (cases "stringifyKey a")
    case (Inl e)
    with c show ?thesis by (simp add: call_def)
  next
    case (Inr ck)
    show ?thesis
    proof (cases "cache s ck")
      case (Some p)
      with Inr c show ?thesis by (simp add: call_def)
    next
      case None
      have st: "step m (Call a) s = s\<lparr>cache := (cache s)(ck \<mapsto> length (promises s)),
          promises := promises s @ [\<lparr>args = a, cacheKey = ck, phase = AwaitGet\<rparr>],
          trace := trace s @ [CallGet (length (promises s)) (key m @ a)]\<rparr>"
        using Inr None by (simp add: call_def Let_def)
      show ?thesis
      proof (cases "q < length (promises s)")
        case True
        with c show ?thesis unfolding st by (simp add: counts_ok_def nth_append)
      next
        case False
        with c show ?thesis unfolding st
          by (cases "q = length (promises s)") (simp_all add: counts_ok_def)
      qed
    qed
  qed
qed

lemma counts_ok_get: "counts_ok s q \<Longrightarrow> counts_ok (step m (GetSettles p out) s) q"
proof (cases "p < length (promises s) \<and> phase (promises s ! p) = AwaitGet")
  case True
  assume c: "counts_ok s q"
  show ?thesis
  proof (cases "q = p")
    case True
    with c \<open>p < length (promises s) \<and> phase (promises s ! p) = AwaitGet\<close> show ?thesis
      by (cases out) (simp_all add: counts_ok_after_get, simp add: counts_ok_def)
  next
    case False
    from True have "progress s (step m (GetSettles p out) s) p"
      by (cases out) (simp_all add: progress_advance progress_after_get)
    from counts_ok_progress_other[OF this False] c show ?thesis by simp
  qed
next
  case False
  assume "counts_ok s q"
  with False show ?thesis by auto
qed

lemma counts_ok_fn: "counts_ok s q \<Longrightarrow> counts_ok (step m (FnSettles p out) s) q"
proof (cases "p < length (promises s) \<and> phase (promises s ! p) = AwaitFn")
  case True
  assume c: "counts_ok s q"
  show ?thesis
  proof (cases "q = p")
    case True
    with c \<open>p < length (promises s) \<and> phase (promises s ! p) = AwaitFn\<close> show ?thesis
      by (cases out) (simp_all add: counts_ok_after_fn, simp add: counts_ok_def)
  next
    case False
    from True have "progress s (step m (FnSettles p out) s) p"
      by (cases out) (simp_all add: progress_advance progress_after_fn)
    from counts_ok_progress_other[OF this False] c show ?thesis by simp
  qed
next
  case False
  assume "counts_ok s q"
  with False show ?thesis by auto
qed

lemma counts_ok_set: "counts_ok s q \<Longrightarrow> counts_ok (step m (SetSettles p out) s) q"
proof (cases "p < length (promises s) \<and> (\<exists>r e. phase (promises s ! p) = AwaitSet r e)")
  case True
  then obtain r e where ph: "phase (promises s ! p) = AwaitSet r e" and lt: "p < length (promises s)"
    by blast
  assume c: "counts_ok s q"
  show ?thesis
  proof (cases "q = p")
    case True
    with c ph lt show ?thesis by (cases out) (simp_all add: counts_ok_def)
  next
    case False
    from ph lt have "progress s (step m (SetSettles p out) s) p"
      by (cases out) (simp_all add: progress_advance progress_set)
    from counts_ok_progress_other[OF this False] c show ?thesis by simp
  qed
next
  case False
  assume "counts_ok s q"
  with False show ?thesis by (auto split: phase.splits)
qed

lemma counts_ok_finally: "counts_ok s q \<Longrightarrow> counts_ok (step m (Finally p) s) q"
proof (cases "p < length (promises s) \<and> (\<exists>out. phase (promises s ! p) = BodySettled out)")
  case True
  then obtain out where ph: "phase (promises s ! p) = BodySettled out" and lt: "p < length (promises s)"
    by blast
  assume c: "counts_ok s q"
  with ph lt show ?thesis by (cases "q = p") (simp_all add: counts_ok_def)
next
  case False
  assume "counts_ok s q"
  with False show ?thesis by (auto split: phase.splits)
qed

lemma counts_ok_resolve: "counts_ok s q \<Longrightarrow> counts_ok (step m (Resolve p) s) q"
proof (cases "p < length (promises s) \<and> (\<exists>out. phase (promises s ! p) = Removed out)")
  case True
  then obtain out where ph: "phase (promises s ! p) = Removed out" and lt: "p < length (promises s)"
    by blast
  assume c: "counts_ok s q"
  with ph lt show ?thesis by (cases "q = p") (simp_all add: counts_ok_def)
next
  case False
  assume "counts_ok s q"
  with False show ?thesis by (auto split: phase.splits)
qed

lemma counts_ok_step: "counts_ok s q \<Longrightarrow> counts_ok (step m ev s) q"
  by (cases ev)
     (simp_all only: counts_ok_call counts_ok_get counts_ok_fn counts_ok_set counts_ok_finally
        counts_ok_resolve)

lemma advance_task [simp]:
  "args (promises (advance p ph s) ! q) = args (promises s ! q)"
  "cacheKey (promises (advance p ph s) ! q) = cacheKey (promises s ! q)"
proof -
  show "args (promises (advance p ph s) ! q) = args (promises s ! q)"
  proof (cases "p < length (promises s)")
    case True then show ?thesis by (cases "q = p") simp_all
  next
    case False then show ?thesis by (simp add: advance_def list_update_beyond not_less)
  qed
  show "cacheKey (promises (advance p ph s) ! q) = cacheKey (promises s ! q)"
  proof (cases "p < length (promises s)")
    case True then show ?thesis by (cases "q = p") simp_all
  next
    case False then show ?thesis by (simp add: advance_def list_update_beyond not_less)
  qed
qed

lemma after_get_frame [simp]:
  "cache (after_get m p a c s) = cache s"
  "db (after_get m p a c s) = db s"
  "length (promises (after_get m p a c s)) = length (promises s)"
  "args (promises (after_get m p a c s) ! q) = args (promises s ! q)"
  "cacheKey (promises (after_get m p a c s) ! q) = cacheKey (promises s ! q)"
proof -
  from after_get_shape[of m p a c s] obtain ph es where
    e: "after_get m p a c s = advance p ph (emit es s)" by blast
  show "cache (after_get m p a c s) = cache s" "db (after_get m p a c s) = db s"
  "length (promises (after_get m p a c s)) = length (promises s)"
  "args (promises (after_get m p a c s) ! q) = args (promises s ! q)"
  "cacheKey (promises (after_get m p a c s) ! q) = cacheKey (promises s ! q)"
    unfolding e by simp_all
qed

lemma after_fn_frame [simp]:
  "cache (after_fn m p a r s) = cache s"
  "db (after_fn m p a r s) = db s"
  "length (promises (after_fn m p a r s)) = length (promises s)"
  "args (promises (after_fn m p a r s) ! q) = args (promises s ! q)"
  "cacheKey (promises (after_fn m p a r s) ! q) = cacheKey (promises s ! q)"
proof -
  from after_fn_shape[of m p a r s] obtain ph es where
    e: "after_fn m p a r s = advance p ph (emit es s)" by blast
  show "cache (after_fn m p a r s) = cache s" "db (after_fn m p a r s) = db s"
  "length (promises (after_fn m p a r s)) = length (promises s)"
  "args (promises (after_fn m p a r s) ! q) = args (promises s ! q)"
  "cacheKey (promises (after_fn m p a r s) ! q) = cacheKey (promises s ! q)"
    unfolding e by simp_all
qed


section \<open>Runs\<close>

lemma init_invs:
  "inv_cache (init_state d)" "inv_keys (init_state d)" "counts_ok (init_state d) q"
  by (simp_all add: init_state_def inv_cache_def inv_keys_def counts_ok_def)

lemma inv_cache_exec: "inv_cache s \<Longrightarrow> inv_cache (exec m s evs)"
  by (induction evs arbitrary: s) (simp_all add: inv_cache_step)

lemma inv_keys_exec: "inv_keys s \<Longrightarrow> inv_keys (exec m s evs)"
  by (induction evs arbitrary: s) (simp_all add: inv_keys_step)

lemma counts_ok_exec: "counts_ok s q \<Longrightarrow> counts_ok (exec m s evs) q"
  by (induction evs arbitrary: s) (simp_all add: counts_ok_step)

lemma exec_append: "exec m s (xs @ ys) = exec m (exec m s xs) ys"
  by (induction xs arbitrary: s) simp_all

lemma step_length: "length (promises s) \<le> length (promises (step m ev s))"
  using step_shape[of m ev s] by (auto simp: progress_def)

lemma exec_length: "length (promises s) \<le> length (promises (exec m s evs))"
proof (induction evs arbitrary: s)
  case Nil show ?case by simp
next
  case (Cons ev evs)
  from step_length[of s m ev] Cons[of "step m ev s"] show ?case by simp
qed

lemma registered_progress_other:
  assumes "progress s s' q" "p < length (promises s)" "\<not> registered (phase (promises s ! p))"
  shows "promises s' ! p = promises s ! p"
proof -
  from assms have "p \<noteq> q" unfolding progress_def by auto
  with assms(1) show ?thesis unfolding progress_def by auto
qed

lemma settled_step:
  assumes "p < length (promises s)" "phase (promises s ! p) = Settled out"
  shows "p < length (promises (step m ev s)) \<and> phase (promises (step m ev s) ! p) = Settled out"
proof -
  have lt: "p < length (promises (step m ev s))"
    using step_length[of s m ev] assms(1) by simp
  have nr: "\<not> registered (phase (promises s ! p))" using assms(2) by simp
  have "phase (promises (step m ev s) ! p) = Settled out"
    using step_shape[of m ev s]
  proof (elim disjE exE conjE)
    assume "step m ev s = s" with assms show ?thesis by simp
  next
    fix a ck assume "step m ev s = s\<lparr>cache := (cache s)(ck \<mapsto> length (promises s)),
        promises := promises s @ [\<lparr>args = a, cacheKey = ck, phase = AwaitGet\<rparr>],
        trace := trace s @ [CallGet (length (promises s)) (key m @ a)]\<rparr>"
    with assms show ?thesis by (simp add: nth_append)
  next
    fix q assume "progress s (step m ev s) q"
    from registered_progress_other[OF this assms(1) nr] assms(2) show ?thesis by simp
  next
    fix q out' assume "phase (promises s ! q) = BodySettled out'"
      and st: "step m ev s = advance q (Removed out')
        (s\<lparr>cache := (cache s)(cacheKey (promises s ! q) := None),
           trace := trace s @ [CacheDelete q (cacheKey (promises s ! q))]\<rparr>)"
    with assms(2) have "p \<noteq> q" by auto
    with assms(2) show ?thesis unfolding st by (simp add: advance_def)
  next
    fix q out' assume "phase (promises s ! q) = Removed out'"
      and st: "step m ev s = advance q (Settled out') s"
    with assms(2) have "p \<noteq> q" by auto
    with assms(2) show ?thesis unfolding st by simp
  qed
  with lt show ?thesis by simp
qed

lemma settled_exec:
  "p < length (promises s) \<Longrightarrow> phase (promises s ! p) = Settled out \<Longrightarrow>
   p < length (promises (exec m s evs)) \<and> phase (promises (exec m s evs) ! p) = Settled out"
proof (induction evs arbitrary: s)
  case Nil then show ?case by simp
next
  case (Cons ev evs)
  from settled_step[OF Cons.prems, of m ev] Cons.IH[of "step m ev s"] show ?case by simp
qed

lemma call_joins:
  "stringifyKey a = Inr ck \<Longrightarrow> cache s ck = Some p \<Longrightarrow> call m s a = Inr (p, s)"
  by (simp add: call_def)

lemma call_registers:
  assumes "call m s a = Inr (p, s1)"
  shows "\<exists>ck. stringifyKey a = Inr ck \<and> cache s1 ck = Some p"
  using assms by (auto simp: call_def Let_def split: sum.splits option.splits)

lemma calls_collapse:
  assumes "call m s a = Inr (p, s1)"
  shows "exec m s (replicate (Suc n) (Call a)) = s1"
proof -
  from call_registers[OF assms] obtain ck where k: "stringifyKey a = Inr ck" "cache s1 ck = Some p"
    by blast
  have rest: "exec m s1 (replicate n (Call a)) = s1" for n
    by (induction n) (simp_all add: call_joins[OF k])
  show ?thesis using assms rest by simp
qed

lemma counts_run:
  assumes "p < length (promises (exec m (init_state d) evs))"
  shows "count (is_get p) (trace (exec m (init_state d) evs)) = 1"
    and "calls_ok (phase (promises (exec m (init_state d) evs) ! p))
           (count (is_fn p) (trace (exec m (init_state d) evs)))
           (count (is_set p) (trace (exec m (init_state d) evs)))
           (count (is_delete p) (trace (exec m (init_state d) evs)))"
proof -
  have "counts_ok (exec m (init_state d) evs) p" by (rule counts_ok_exec[OF init_invs(3)])
  with assms show "count (is_get p) (trace (exec m (init_state d) evs)) = 1"
    and "calls_ok (phase (promises (exec m (init_state d) evs) ! p))
           (count (is_fn p) (trace (exec m (init_state d) evs)))
           (count (is_set p) (trace (exec m (init_state d) evs)))
           (count (is_delete p) (trace (exec m (init_state d) evs)))"
    by (simp_all add: counts_ok_def)
qed

lemma calls_ok_le: "calls_ok ph f st dl \<Longrightarrow> f \<le> 1 \<and> st \<le> 1 \<and> dl \<le> 1"
  by (cases ph) simp_all

section \<open>What each step of the body does\<close>

lemma call_fresh:
  assumes "stringifyKey a = Inr ck" "cache s ck = None"
  shows "call m s a = Inr (length (promises s),
           s\<lparr>cache := (cache s)(ck \<mapsto> length (promises s)),
             promises := promises s @ [\<lparr>args = a, cacheKey = ck, phase = AwaitGet\<rparr>],
             trace := trace s @ [CallGet (length (promises s)) (key m @ a)]\<rparr>)"
  using assms by (simp add: call_def Let_def)

lemma get_miss:
  assumes "p < length (promises s)" "phase (promises s ! p) = AwaitGet"
    "a = args (promises s ! p)" "nullish (store_get m (db s) (key m @ a))"
  shows "step m (GetSettles p None) s = advance p AwaitFn (emit [CallFn p a] s)"
  using assms by (cases "store_get m (db s) (key m @ a)") (simp_all add: after_get_def)

lemma get_hit_kept:
  assumes "p < length (promises s)" "phase (promises s ! p) = AwaitGet"
    "a = args (promises s ! p)" "store_get m (db s) (key m @ a) = Val c"
    "shouldRecalculate (options m) = None \<or>
     (\<exists>f. shouldRecalculate (options m) = Some f \<and> \<not> f c a)"
  shows "step m (GetSettles p None) s =
     advance p (BodySettled (Fulfilled (Val c)))
       (emit (case shouldRecalculate (options m) of None \<Rightarrow> []
              | Some f \<Rightarrow> [CallShouldRecalculate p c a]) s)"
  using assms by (auto simp: after_get_def)

lemma get_hit_recalculated:
  assumes "p < length (promises s)" "phase (promises s ! p) = AwaitGet"
    "a = args (promises s ! p)" "store_get m (db s) (key m @ a) = Val c"
    "shouldRecalculate (options m) = Some f" "f c a"
  shows "step m (GetSettles p None) s =
     advance p AwaitFn (emit [CallShouldRecalculate p c a, CallFn p a] s)"
  using assms by (simp add: after_get_def)

lemma get_fails:
  assumes "p < length (promises s)" "phase (promises s ! p) = AwaitGet"
  shows "step m (GetSettles p (Some e)) s = advance p (BodySettled (Rejected e)) s"
  using assms by simp

lemma fn_fails:
  assumes "p < length (promises s)" "phase (promises s ! p) = AwaitFn"
  shows "step m (FnSettles p (Rejected e)) s = advance p (BodySettled (Rejected e)) s"
  using assms by simp

lemma fn_nullish:
  assumes "p < length (promises s)" "phase (promises s ! p) = AwaitFn"
    "a = args (promises s ! p)" "nullish r"
  shows "step m (FnSettles p (Fulfilled r)) s =
     advance p (BodySettled (Fulfilled r)) (emit (expire_calls m p r a) s)"
  using assms by (cases r) (simp_all add: after_fn_def Let_def)

lemma fn_cached:
  assumes "p < length (promises s)" "phase (promises s ! p) = AwaitFn"
    "a = args (promises s ! p)"
    "shouldCache (options m) = None \<or> (\<exists>g. shouldCache (options m) = Some g \<and> g r a)"
  shows "step m (FnSettles p (Fulfilled (Val r))) s =
     advance p (AwaitSet r (expire_value m (Val r) a))
       (emit (expire_calls m p (Val r) a @
              (case shouldCache (options m) of None \<Rightarrow> [] | Some g \<Rightarrow> [CallShouldCache p r a]) @
              [CallSet p (key m @ a) r (expire_value m (Val r) a)]) s)"
  using assms by (auto simp: after_fn_def Let_def emit_emit)

lemma fn_not_cached:
  assumes "p < length (promises s)" "phase (promises s ! p) = AwaitFn"
    "a = args (promises s ! p)" "shouldCache (options m) = Some g" "\<not> g r a"
  shows "step m (FnSettles p (Fulfilled (Val r))) s =
     advance p (BodySettled (Fulfilled (Val r)))
       (emit (expire_calls m p (Val r) a @ [CallShouldCache p r a]) s)"
  using assms by (simp add: after_fn_def Let_def emit_emit)

lemma set_done:
  assumes "p < length (promises s)" "phase (promises s ! p) = AwaitSet r e"
    "a = args (promises s ! p)"
  shows "step m (SetSettles p None) s =
     advance p (BodySettled (Fulfilled (Val r))) (s\<lparr>db := store_set m (db s) (key m @ a) r e\<rparr>)"
  using assms by simp

lemma set_fails:
  assumes "p < length (promises s)" "phase (promises s ! p) = AwaitSet r e"
  shows "step m (SetSettles p (Some err)) s = advance p (BodySettled (Rejected err)) s"
  using assms by simp

lemma finally_runs:
  assumes "p < length (promises s)" "phase (promises s ! p) = BodySettled out"
  shows "step m (Finally p) s = advance p (Removed out)
     (s\<lparr>cache := (cache s)(cacheKey (promises s ! p) := None),
        trace := trace s @ [CacheDelete p (cacheKey (promises s ! p))]\<rparr>)"
  using assms by simp

lemma resolve_runs:
  assumes "p < length (promises s)" "phase (promises s ! p) = Removed out"
  shows "step m (Resolve p) s = advance p (Settled out) s"
  using assms by simp

text \<open>The body settled: the callback removes the entry and the promise settles with the same outcome.\<close>

lemma settle:
  assumes lt: "p < length (promises s)" and ph: "phase (promises s ! p) = BodySettled out"
    and s': "s' = exec m s [Finally p, Resolve p]"
  shows "phase_of s' p = Some (Settled out)"
    and "db s' = db s"
    and "cache s' = (cache s)(cacheKey (promises s ! p) := None)"
    and "length (promises s') = length (promises s)"
    and "trace s' = trace s @ [CacheDelete p (cacheKey (promises s ! p))]"
proof -
  define s1 where "s1 = step m (Finally p) s"
  have 1: "s1 = advance p (Removed out)
     (s\<lparr>cache := (cache s)(cacheKey (promises s ! p) := None),
        trace := trace s @ [CacheDelete p (cacheKey (promises s ! p))]\<rparr>)"
    unfolding s1_def by (rule finally_runs[OF lt ph])
  have l1: "p < length (promises s1)" unfolding 1 using lt by simp
  have p1: "phase (promises s1 ! p) = Removed out" unfolding 1 using lt by simp
  have "s' = step m (Resolve p) s1" unfolding s' s1_def by simp
  then have 2: "s' = advance p (Settled out) s1"
    using resolve_runs[OF l1 p1, of m] by simp
  show "phase_of s' p = Some (Settled out)" unfolding 2 using l1 by (simp add: phase_of_def)
  show "db s' = db s" unfolding 2 by (simp add: 1)
  show "cache s' = (cache s)(cacheKey (promises s ! p) := None)" unfolding 2 by (simp add: 1)
  show "length (promises s') = length (promises s)" unfolding 2 by (simp add: 1)
  show "trace s' = trace s @ [CacheDelete p (cacheKey (promises s ! p))]"
    unfolding 2 by (simp add: 1)
qed

text \<open>
  A promise whose body settled after \<^verbatim>\<open>fn\<close> without a store write, followed to its end and by
  one more call with the same arguments: the store is as it was, the entry is gone, and the
  new promise decides as the first did.
\<close>

lemma after_get_decides:
  assumes "p < length (promises s)" "q < length (promises t)"
    and "phase (promises (after_get m p a c s) ! p) = AwaitFn"
  shows "phase (promises (after_get m q a c t) ! q) = AwaitFn"
  using assms by (auto simp: after_get_def split: jsval.splits option.splits if_splits)

lemma after_fn_no_set:
  assumes "p < length (promises s)" "phase (promises (after_fn m p a r s) ! p) = BodySettled out"
  shows "count (is_set p) (trace (after_fn m p a r s)) = count (is_set p) (trace s)"
  using assms by (auto simp: after_fn_def Let_def split: jsval.splits option.splits if_splits)

lemma again:
  assumes reach: "s0 = exec m (init_state d) evs0"
    and key: "stringifyKey a = Inr ck" and fresh: "cache s0 ck = None"
    and p0: "p0 = length (promises s0)"
    and s2: "s2 = exec m s0 [Call a, GetSettles p0 None]"
    and fn: "phase_of s2 p0 = Some AwaitFn"
    and s3: "s3 = step m (FnSettles p0 res) s2"
    and nowrite: "phase_of s3 p0 = Some (BodySettled out)"
    and s5: "s5 = exec m s3 [Finally p0, Resolve p0]"
    and s7: "s7 = exec m s5 [Call a, GetSettles (Suc p0) None]"
  shows "phase_of s5 p0 = Some (Settled out)"
    and "db s5 = db s0"
    and "cache s5 ck = None"
    and "count (is_set p0) (trace s5) = 0"
    and "promise_of (call m s5 a) = Inr (Suc p0)"
    and "phase_of s7 (Suc p0) = Some AwaitFn"
    and "count (is_fn (Suc p0)) (trace s7) = 1"
proof -
  define s1 where "s1 = step m (Call a) s0"
  define t where "t = \<lparr>args = a, cacheKey = ck, phase = AwaitGet :: 'a phase\<rparr>"
  define c where "c = store_get m (db s0) (key m @ a)"
  have s1: "s1 = s0\<lparr>cache := (cache s0)(ck \<mapsto> p0), promises := promises s0 @ [t],
        trace := trace s0 @ [CallGet p0 (key m @ a)]\<rparr>"
    unfolding s1_def t_def p0 by (simp add: call_fresh[OF key fresh])
  have l1: "p0 < length (promises s1)" and t1: "promises s1 ! p0 = t"
    by (simp_all add: s1 p0)
  have db1: "db s1 = db s0" by (simp add: s1)
  have "s2 = step m (GetSettles p0 None) s1" unfolding s2 s1_def by (simp only: exec.simps)
  then have s2': "s2 = after_get m p0 a c s1"
    unfolding c_def using l1 t1 by (simp add: t_def db1)
  have l2: "p0 < length (promises s2)" unfolding s2' using l1 by simp
  have f2: "phase (promises s2 ! p0) = AwaitFn" using fn l2 by (simp add: phase_of_def)
  have k2: "cacheKey (promises s2 ! p0) = ck" "args (promises s2 ! p0) = a"
    unfolding s2' by (simp_all add: t1 t_def)
  have d2: "db s2 = db s0" "cache s2 = (cache s0)(ck \<mapsto> p0)"
    "length (promises s2) = Suc p0"
    unfolding s2' by (simp_all add: s1 p0)
  have fr3: "db s3 = db s2 \<and> cache s3 = cache s2 \<and> length (promises s3) = length (promises s2)
     \<and> cacheKey (promises s3 ! p0) = ck \<and> count (is_set p0) (trace s3) = count (is_set p0) (trace s2)"
  proof (cases res)
    case (Rejected e)
    then show ?thesis unfolding s3 using l2 f2 k2 by simp
  next
    case (Fulfilled r)
    then have e: "s3 = after_fn m p0 a r s2" unfolding s3 using l2 f2 k2 by simp
    from nowrite have "phase (promises (after_fn m p0 a r s2) ! p0) = BodySettled out"
      unfolding e by (simp add: phase_of_def split: if_splits)
    from after_fn_no_set[OF l2 this] show ?thesis unfolding e by (simp add: k2)
  qed
  have l3: "p0 < length (promises s3)" using fr3 l2 by simp
  have b3: "phase (promises s3 ! p0) = BodySettled out"
    using nowrite l3 by (simp add: phase_of_def)
  note st = settle[OF l3 b3 s5]
  show "phase_of s5 p0 = Some (Settled out)" by (rule st(1))
  show d5: "db s5 = db s0" using st(2) fr3 d2 by simp
  show c5: "cache s5 ck = None" using st(3) fr3 by simp
  have run2: "s2 = exec m (init_state d) (evs0 @ [Call a, GetSettles p0 None])"
    unfolding s2 reach by (simp add: exec_append)
  from counts_run(2)[OF l2[unfolded run2], folded run2] f2
  have "count (is_set p0) (trace s2) = 0" by simp
  then show "count (is_set p0) (trace s5) = 0" using st(5) fr3 by simp
  have l5: "length (promises s5) = Suc p0" using st(4) fr3 d2 by simp
  define s6 where "s6 = step m (Call a) s5"
  have s6: "s6 = s5\<lparr>cache := (cache s5)(ck \<mapsto> Suc p0), promises := promises s5 @ [t],
        trace := trace s5 @ [CallGet (Suc p0) (key m @ a)]\<rparr>"
    unfolding s6_def t_def by (simp add: call_fresh[OF key c5] l5)
  show "promise_of (call m s5 a) = Inr (Suc p0)"
    by (simp add: call_fresh[OF key c5] l5 promise_of_def)
  have l6: "Suc p0 < length (promises s6)" and t6: "promises s6 ! Suc p0 = t"
    by (simp_all add: s6 l5 nth_append)
  have db6: "db s6 = db s0" by (simp add: s6 d5)
  have "s7 = step m (GetSettles (Suc p0) None) s6" unfolding s7 s6_def by (simp only: exec.simps)
  then have s7': "s7 = after_get m (Suc p0) a c s6"
    unfolding c_def using l6 t6 by (simp add: t_def db6)
  have "phase (promises (after_get m p0 a c s1) ! p0) = AwaitFn" using f2 unfolding s2' .
  from after_get_decides[OF l1 l6 this]
  have f7: "phase (promises s7 ! Suc p0) = AwaitFn" unfolding s7' .
  have l7: "Suc p0 < length (promises s7)" unfolding s7' using l6 by simp
  show "phase_of s7 (Suc p0) = Some AwaitFn" using f7 l7 by (simp add: phase_of_def)
  have run7: "s7 = exec m (init_state d)
      (evs0 @ [Call a, GetSettles p0 None] @ [FnSettles p0 res] @ [Finally p0, Resolve p0]
        @ [Call a, GetSettles (Suc p0) None])"
    unfolding s7 s5 s3 s2 reach by (simp add: exec_append)
  from counts_run(2)[OF l7[unfolded run7], folded run7] f7
  show "count (is_fn (Suc p0)) (trace s7) = 1" by simp
qed

text \<open>From the moment the body of a promise has settled, its outcome does not change.\<close>

lemma after_get_other:
  "q \<noteq> p \<Longrightarrow> promises (after_get m p a c s) ! q = promises s ! q"
  using after_get_shape[of m p a c s] by auto

lemma after_fn_other:
  "q \<noteq> p \<Longrightarrow> promises (after_fn m p a r s) ! q = promises s ! q"
  using after_fn_shape[of m p a r s] by auto

lemma outcome_step:
  assumes lt: "p < length (promises s)" and out: "outcome (phase (promises s ! p)) = Some out"
  shows "p < length (promises (step m ev s)) \<and>
         outcome (phase (promises (step m ev s) ! p)) = Some out"
proof -
  have l: "p < length (promises (step m ev s))"
    using step_length[of s m ev] lt by simp
  have "outcome (phase (promises (step m ev s) ! p)) = Some out"
  proof (cases ev)
    case (Call a)
    show ?thesis
    proof (cases "call m s a")
      case (Inl e) with Call out show ?thesis by simp
    next
      case (Inr r)
      then show ?thesis using Call out lt
        by (auto simp: call_def Let_def nth_append split: sum.splits option.splits)
    qed
  next
    case (GetSettles q res)
    show ?thesis
    proof (cases "q = p")
      case True with GetSettles out show ?thesis by auto
    next
      case False
      then have "promises (step m ev s) ! p = promises s ! p"
        unfolding GetSettles by (cases res) (simp_all add: after_get_other)
      with out show ?thesis by simp
    qed
  next
    case (FnSettles q res)
    show ?thesis
    proof (cases "q = p")
      case True with FnSettles out show ?thesis by auto
    next
      case False
      then have "promises (step m ev s) ! p = promises s ! p"
        unfolding FnSettles by (cases res) (simp_all add: after_fn_other)
      with out show ?thesis by simp
    qed
  next
    case (SetSettles q res)
    show ?thesis
    proof (cases "q = p")
      case True with SetSettles out show ?thesis by (cases "phase (promises s ! p)") auto
    next
      case False
      then have "promises (step m ev s) ! p = promises s ! p"
        unfolding SetSettles by (cases res) (simp_all split: phase.splits)
      with out show ?thesis by simp
    qed
  next
    case (Finally q)
    show ?thesis
    proof (cases "q = p")
      case True with Finally out lt show ?thesis by (cases "phase (promises s ! p)") auto
    next
      case False
      then have "promises (step m ev s) ! p = promises s ! p"
        unfolding Finally by (simp add: advance_def split: phase.splits)
      with out show ?thesis by simp
    qed
  next
    case (Resolve q)
    show ?thesis
    proof (cases "q = p")
      case True with Resolve out lt show ?thesis by (cases "phase (promises s ! p)") auto
    next
      case False
      then have "promises (step m ev s) ! p = promises s ! p"
        unfolding Resolve by (simp split: phase.splits)
      with out show ?thesis by simp
    qed
  qed
  with l show ?thesis by simp
qed

lemma outcome_exec:
  "p < length (promises s) \<Longrightarrow> outcome (phase (promises s ! p)) = Some out \<Longrightarrow>
   p < length (promises (exec m s evs)) \<and>
   outcome (phase (promises (exec m s evs) ! p)) = Some out"
proof (induction evs arbitrary: s)
  case Nil then show ?case by simp
next
  case (Cons ev evs)
  from outcome_step[OF Cons.prems, of m ev] Cons.IH[of "step m ev s"] show ?case by simp
qed



lemma fp_a12: "stringifyKey a12 = Inr ''1.2''"
  by code_simp

text \<open>The record of calls only grows.\<close>

lemma trace_step: "\<exists>es. trace (step m ev s) = trace s @ es"
  using step_shape[of m ev s]
proof (elim disjE exE conjE)
  assume "step m ev s = s"
  then show ?thesis by simp
next
  fix a ck assume "step m ev s = s\<lparr>cache := (cache s)(ck \<mapsto> length (promises s)),
      promises := promises s @ [\<lparr>args = a, cacheKey = ck, phase = AwaitGet\<rparr>],
      trace := trace s @ [CallGet (length (promises s)) (key m @ a)]\<rparr>"
  then show ?thesis by simp
next
  fix p assume "progress s (step m ev s) p"
  then obtain ph es d where "step m ev s = advance p ph (emit es (s\<lparr>db := d\<rparr>))"
    unfolding progress_def by blast
  then have "trace (step m ev s) = trace s @ es" by simp
  then show ?thesis by blast
next
  fix p out assume "step m ev s = advance p (Removed out)
      (s\<lparr>cache := (cache s)(cacheKey (promises s ! p) := None),
         trace := trace s @ [CacheDelete p (cacheKey (promises s ! p))]\<rparr>)"
  then show ?thesis by simp
next
  fix p out assume "step m ev s = advance p (Settled out) s"
  then show ?thesis by simp
qed

lemma trace_exec: "\<exists>es. trace (exec m s evs) = trace s @ es"
proof (induction evs arbitrary: s)
  case Nil show ?case by simp
next
  case (Cons ev evs)
  from trace_step[of m ev s] obtain es where 1: "trace (step m ev s) = trace s @ es" by blast
  from Cons[of "step m ev s"] obtain es' where
    "trace (exec m (step m ev s) evs) = trace (step m ev s) @ es'" by blast
  with 1 have "trace (exec m s (ev # evs)) = trace s @ (es @ es')" by simp
  then show ?case by blast
qed

lemma count_exec_mono: "count P (trace s) \<le> count P (trace (exec m s evs))"
proof -
  from trace_exec[of m s evs] obtain es where "trace (exec m s evs) = trace s @ es" by blast
  then show ?thesis by simp
qed

text \<open>The first call with arguments that have no entry, up to the end of its store read.\<close>

lemma first_read:
  assumes key: "stringifyKey a = Inr ck" and fresh: "cache s0 ck = None"
    and p0: "p0 = length (promises s0)"
    and s2: "s2 = exec m s0 [Call a, GetSettles p0 None]"
  shows "s2 = after_get m p0 a (store_get m (db s0) (key m @ a)) (step m (Call a) s0)"
    and "p0 < length (promises (step m (Call a) s0))"
    and "p0 < length (promises s2)"
    and "args (promises s2 ! p0) = a"
    and "cache s2 ck = Some p0"
proof -
  define s1 where "s1 = step m (Call a) s0"
  define t where "t = \<lparr>args = a, cacheKey = ck, phase = AwaitGet :: 'a phase\<rparr>"
  have s1: "s1 = s0\<lparr>cache := (cache s0)(ck \<mapsto> p0), promises := promises s0 @ [t],
        trace := trace s0 @ [CallGet p0 (key m @ a)]\<rparr>"
    unfolding s1_def t_def p0 by (simp add: call_fresh[OF key fresh])
  have l1: "p0 < length (promises s1)" and t1: "promises s1 ! p0 = t"
    by (simp_all add: s1 p0)
  have db1: "db s1 = db s0" by (simp add: s1)
  have "s2 = step m (GetSettles p0 None) s1" unfolding s2 s1_def by (simp only: exec.simps)
  then have s2': "s2 = after_get m p0 a (store_get m (db s0) (key m @ a)) s1"
    using l1 t1 by (simp add: t_def db1)
  show "s2 = after_get m p0 a (store_get m (db s0) (key m @ a)) (step m (Call a) s0)"
    using s2' unfolding s1_def .
  show "p0 < length (promises (step m (Call a) s0))" using l1 unfolding s1_def .
  show "p0 < length (promises s2)" unfolding s2' using l1 by simp
  show "args (promises s2 ! p0) = a" unfolding s2' by (simp add: t1 t_def)
  show "cache s2 ck = Some p0" unfolding s2' by (simp add: s1)
qed

text \<open>The store changes by the write of a promise that waits for it, and in no other way.\<close>

lemma db_step:
  "db (step m ev t) = db t \<or>
   (\<exists>q v e. ev = SetSettles q None \<and> phase_of t q = Some (AwaitSet v e) \<and>
      db (step m ev t) = store_set m (db t) (key m @ args (promises t ! q)) v e)"
proof (cases ev)
  case (Call a)
  then show ?thesis by (auto simp: call_def Let_def split: sum.splits option.splits)
next
  case (GetSettles q res)
  then show ?thesis by (cases res) simp_all
next
  case (FnSettles q res)
  then show ?thesis by (cases res) simp_all
next
  case (SetSettles q res)
  show ?thesis
  proof (cases "q < length (promises t)")
    case False with SetSettles show ?thesis by simp
  next
    case True
    show ?thesis
    proof (cases "phase (promises t ! q)")
      case (AwaitSet v e)
      show ?thesis
      proof (cases res)
        case None
        with SetSettles True AwaitSet show ?thesis by (simp add: phase_of_def)
      next
        case (Some err)
        with SetSettles True AwaitSet show ?thesis by simp
      qed
    qed (use SetSettles True in simp_all)
  qed
next
  case (Finally q)
  then show ?thesis by (simp split: phase.splits)
next
  case (Resolve q)
  then show ?thesis by (simp split: phase.splits)
qed

lemma db_step_dom:
  assumes "kv (options m) = None"
  shows "dom (db t) \<subseteq> dom (db (step m ev t))"
  using db_step[of m ev t] assms by (auto simp: store_set_def db_set_def)

lemma await_set_origin:
  assumes "phase_of (step m ev t) q = Some (AwaitSet v e)"
    and "phase_of t q \<noteq> Some (AwaitSet v e)"
  shows "ev = FnSettles q (Fulfilled (Val v))"
proof (cases ev)
  case (Call a)
  with assms show ?thesis
    by (auto simp: call_def Let_def phase_of_def nth_append split: sum.splits option.splits if_splits)
next
  case (GetSettles q' res)
  show ?thesis
  proof (cases "q' = q")
    case True
    with assms GetSettles show ?thesis
      by (cases res) (auto simp: phase_of_def after_get_def split: if_splits jsval.splits option.splits)
  next
    case False
    then have "promises (step m ev t) ! q = promises t ! q"
      unfolding GetSettles by (cases res) (simp_all add: after_get_other)
    moreover have "length (promises (step m ev t)) = length (promises t)"
      unfolding GetSettles by (cases res) simp_all
    ultimately show ?thesis using assms by (auto simp: phase_of_def split: if_splits)
  qed
next
  case (FnSettles q' res)
  show ?thesis
  proof (cases "q' = q")
    case True
    with assms FnSettles show ?thesis
      by (cases res) (auto simp: phase_of_def after_fn_def Let_def split: if_splits jsval.splits option.splits)
  next
    case False
    then have "promises (step m ev t) ! q = promises t ! q"
      unfolding FnSettles by (cases res) (simp_all add: after_fn_other)
    moreover have "length (promises (step m ev t)) = length (promises t)"
      unfolding FnSettles by (cases res) simp_all
    ultimately show ?thesis using assms by (auto simp: phase_of_def split: if_splits)
  qed
next
  case (SetSettles q' res)
  with assms show ?thesis
    by (cases "q' = q"; cases res)
       (auto simp: phase_of_def split: if_splits phase.splits)
next
  case (Finally q')
  with assms show ?thesis
    by (cases "q' = q") (auto simp: phase_of_def split: if_splits phase.splits)
next
  case (Resolve q')
  with assms show ?thesis
    by (cases "q' = q") (auto simp: phase_of_def split: if_splits phase.splits)
qed

subsection \<open>After the answer of fn\<close>

text \<open>What a step adds to the record, for a promise that is past the call of fn.\<close>

lemma past_fn_step:
  assumes lt: "p < length (promises s)" and pf: "past_fn (phase (promises s ! p))"
  shows "p < length (promises (step m ev s)) \<and> past_fn (phase (promises (step m ev s) ! p)) \<and>
         (\<exists>es. trace (step m ev s) = trace s @ es \<and>
            (\<forall>e \<in> set es. pid_of e = p \<longrightarrow> \<not> is_call e))"
proof (cases ev)
  case (Call a)
  show ?thesis
  proof (cases "stringifyKey a")
    case (Inl e)
    with Call lt pf show ?thesis by (simp add: call_def)
  next
    case (Inr ck)
    show ?thesis
    proof (cases "cache s ck")
      case (Some q)
      with Call Inr lt pf show ?thesis by (simp add: call_def)
    next
      case None
      have st: "step m ev s = s\<lparr>cache := (cache s)(ck \<mapsto> length (promises s)),
          promises := promises s @ [\<lparr>args = a, cacheKey = ck, phase = AwaitGet\<rparr>],
          trace := trace s @ [CallGet (length (promises s)) (key m @ a)]\<rparr>"
        unfolding Call using call_fresh[OF Inr None, of m] by simp
      show ?thesis unfolding st using lt pf by (simp add: nth_append)
    qed
  qed
next
  case (GetSettles q res)
  show ?thesis
  proof (cases "q = p")
    case True
    with pf have "phase (promises s ! q) \<noteq> AwaitGet" by auto
    then have "step m ev s = s" unfolding GetSettles by simp
    with lt pf show ?thesis by simp
  next
    case False
    show ?thesis
    proof (cases "q < length (promises s) \<and> phase (promises s ! q) = AwaitGet")
      case en: True
      show ?thesis
      proof (cases res)
        case (Some e)
        with en have "step m ev s = advance q (BodySettled (Rejected e)) s"
          unfolding GetSettles by simp
        with False lt pf show ?thesis by simp
      next
        case None
        from after_get_shape obtain ph es where
          sh: "after_get m q (args (promises s ! q))
                (store_get m (db s) (key m @ args (promises s ! q))) s = advance q ph (emit es s)"
          and pid: "\<forall>e \<in> set es. pid_of e = q" by blast
        from None en have "step m ev s = advance q ph (emit es s)"
          unfolding GetSettles using sh by simp
        with False lt pf pid show ?thesis by auto
      qed
    next
      case False
      then have "step m ev s = s" unfolding GetSettles by auto
      with lt pf show ?thesis by simp
    qed
  qed
next
  case (FnSettles q res)
  show ?thesis
  proof (cases "q = p")
    case True
    with pf have "phase (promises s ! q) \<noteq> AwaitFn" by auto
    then have "step m ev s = s" unfolding FnSettles by simp
    with lt pf show ?thesis by simp
  next
    case False
    show ?thesis
    proof (cases "q < length (promises s) \<and> phase (promises s ! q) = AwaitFn")
      case en: True
      show ?thesis
      proof (cases res)
        case (Rejected e)
        with en have "step m ev s = advance q (BodySettled (Rejected e)) s"
          unfolding FnSettles by simp
        with False lt pf show ?thesis by simp
      next
        case (Fulfilled r)
        from after_fn_shape obtain ph es where
          sh: "after_fn m q (args (promises s ! q)) r s = advance q ph (emit es s)"
          and pid: "\<forall>e \<in> set es. pid_of e = q" by blast
        from Fulfilled en have "step m ev s = advance q ph (emit es s)"
          unfolding FnSettles using sh by simp
        with False lt pf pid show ?thesis by auto
      qed
    next
      case False
      then have "step m ev s = s" unfolding FnSettles by auto
      with lt pf show ?thesis by simp
    qed
  qed
next
  case (SetSettles q res)
  show ?thesis
  proof (cases "q < length (promises s) \<and> (\<exists>r e. phase (promises s ! q) = AwaitSet r e)")
    case True
    then obtain r e where ql: "q < length (promises s)" and qp: "phase (promises s ! q) = AwaitSet r e"
      by blast
    show ?thesis
    proof (cases res)
      case None
      from set_done[OF ql qp refl, of m] have "step m ev s =
          advance q (BodySettled (Fulfilled (Val r)))
            (s\<lparr>db := store_set m (db s) (key m @ args (promises s ! q)) r e\<rparr>)"
        unfolding SetSettles None .
      with lt pf show ?thesis by (cases "q = p") simp_all
    next
      case (Some err)
      from set_fails[OF ql qp, of m err] have "step m ev s = advance q (BodySettled (Rejected err)) s"
        unfolding SetSettles Some .
      with lt pf show ?thesis by (cases "q = p") simp_all
    qed
  next
    case False
    then have "step m ev s = s" unfolding SetSettles by (auto split: phase.splits)
    with lt pf show ?thesis by simp
  qed
next
  case (Finally q)
  show ?thesis
  proof (cases "q < length (promises s) \<and> (\<exists>out. phase (promises s ! q) = BodySettled out)")
    case True
    then obtain out where ql: "q < length (promises s)"
      and qp: "phase (promises s ! q) = BodySettled out" by blast
    note st = finally_runs[OF ql qp, of m, folded Finally]
    show ?thesis unfolding st using lt pf by (cases "q = p") simp_all
  next
    case False
    then have "step m ev s = s" unfolding Finally by (auto split: phase.splits)
    with lt pf show ?thesis by simp
  qed
next
  case (Resolve q)
  show ?thesis
  proof (cases "q < length (promises s) \<and> (\<exists>out. phase (promises s ! q) = Removed out)")
    case True
    then obtain out where ql: "q < length (promises s)"
      and qp: "phase (promises s ! q) = Removed out" by blast
    note st = resolve_runs[OF ql qp, of m, folded Resolve]
    show ?thesis unfolding st using lt pf by (cases "q = p") simp_all
  next
    case False
    then have "step m ev s = s" unfolding Resolve by (auto split: phase.splits)
    with lt pf show ?thesis by simp
  qed
qed

lemma is_call_count:
  assumes "\<forall>e \<in> set es. pid_of e = p \<longrightarrow> \<not> is_call e"
  shows "count (is_fn p) es = 0" "count (is_set p) es = 0" "count (is_expire p) es = 0"
    "count (is_get p) es = 0"
proof -
  have "\<not> is_fn p e \<and> \<not> is_set p e \<and> \<not> is_expire p e \<and> \<not> is_get p e" if "e \<in> set es" for e
    using assms that by (cases e) auto
  then show "count (is_fn p) es = 0" "count (is_set p) es = 0" "count (is_expire p) es = 0"
    "count (is_get p) es = 0"
    by (simp_all add: count_def filter_empty_conv)
qed

lemma past_fn_exec:
  assumes "p < length (promises s)" "past_fn (phase (promises s ! p))"
  shows "p < length (promises (exec m s evs)) \<and> past_fn (phase (promises (exec m s evs) ! p)) \<and>
         count (is_fn p) (trace (exec m s evs)) = count (is_fn p) (trace s) \<and>
         count (is_set p) (trace (exec m s evs)) = count (is_set p) (trace s) \<and>
         count (is_expire p) (trace (exec m s evs)) = count (is_expire p) (trace s)"
  using assms
proof (induction evs arbitrary: s)
  case Nil then show ?case by simp
next
  case (Cons ev evs)
  from past_fn_step[OF Cons.prems, of m ev] obtain es where
    l: "p < length (promises (step m ev s))" and pf: "past_fn (phase (promises (step m ev s) ! p))"
    and tr: "trace (step m ev s) = trace s @ es"
    and es: "\<forall>e \<in> set es. pid_of e = p \<longrightarrow> \<not> is_call e" by blast
  note z = is_call_count[OF es]
  from Cons.IH[OF l pf] show ?case by (simp add: tr z)
qed

text \<open>A step that takes the body of a promise past the call of fn fixes its counts.\<close>

lemma settle_counts:
  assumes lt: "p < length (promises s)"
    and st: "step m ev s = advance p ph (emit es s)"
    and past: "past_fn ph"
  shows "count (is_fn p) (trace (exec m s (ev # evs))) = count (is_fn p) (trace s) + count (is_fn p) es"
    and "count (is_set p) (trace (exec m s (ev # evs))) = count (is_set p) (trace s) + count (is_set p) es"
proof -
  define t where "t = step m ev s"
  have e: "t = advance p ph (emit es s)" unfolding t_def by (rule st)
  have lt1: "p < length (promises t)" unfolding e using lt by simp
  have p1: "past_fn (phase (promises t ! p))" unfolding e using lt past by simp
  have x: "exec m s (ev # evs) = exec m t evs" unfolding t_def by simp
  have tr: "trace t = trace s @ es" unfolding e by simp
  note f = past_fn_exec[OF lt1 p1, of m evs]
  from f have "count (is_fn p) (trace (exec m t evs)) = count (is_fn p) (trace t)" by (elim conjE)
  then show "count (is_fn p) (trace (exec m s (ev # evs))) = count (is_fn p) (trace s) + count (is_fn p) es"
    unfolding x tr by simp
  from f have "count (is_set p) (trace (exec m t evs)) = count (is_set p) (trace t)" by (elim conjE)
  then show "count (is_set p) (trace (exec m s (ev # evs))) = count (is_set p) (trace s) + count (is_set p) es"
    unfolding x tr by simp
qed

text \<open>A promise that waits for fn has called it once, and never calls it again.\<close>

lemma fn_called_once:
  assumes reach: "s = exec m (init_state d) evs0"
    and lt: "p < length (promises s)" and ph: "phase (promises s ! p) = AwaitFn"
  shows "count (is_fn p) (trace (exec m s evs)) = 1"
proof -
  from counts_run(2)[OF lt[unfolded reach], folded reach] ph
  have one: "count (is_fn p) (trace s) = 1" by simp
  define s' where "s' = exec m s evs"
  have run': "s' = exec m (init_state d) (evs0 @ evs)"
    unfolding s'_def reach by (simp add: exec_append)
  have l': "p < length (promises s')" using exec_length[of s m evs] lt unfolding s'_def by simp
  from calls_ok_le[OF counts_run(2)[OF l'[unfolded run'], folded run']]
  have "count (is_fn p) (trace s') \<le> 1" by simp
  moreover have "count (is_fn p) (trace s) \<le> count (is_fn p) (trace s')"
    unfolding s'_def by (rule count_exec_mono)
  ultimately show ?thesis using one unfolding s'_def by simp
qed

lemma expire_calls_counts:
  "count (is_fn p) (expire_calls m q r a) = 0"
  "count (is_set p) (expire_calls m q r a) = 0"
  by (simp_all add: expire_calls_def split: option.splits expire_in.splits)

subsection \<open>The calls of the expireIn function\<close>

lemma after_get_expire:
  "count (is_expire p) (trace (after_get m q a c s)) = count (is_expire p) (trace s)"
  by (simp add: after_get_def split: jsval.splits option.splits)

lemma expire_calls_expire:
  "count (is_expire p) (expire_calls m q r a) =
     (if q = p \<and> (\<exists>h. expireIn (options m) = Some (ExpireInFn h)) then 1 else 0)"
  by (simp add: expire_calls_def split: option.splits expire_in.splits)

lemma after_fn_expire:
  "count (is_expire p) (trace (after_fn m q a r s)) =
     count (is_expire p) (trace s) +
     (if q = p \<and> (\<exists>h. expireIn (options m) = Some (ExpireInFn h)) then 1 else 0)"
proof -
  have "count (is_expire p) (trace (after_fn m q a r s)) =
      count (is_expire p) (trace s) + count (is_expire p) (expire_calls m q r a)"
    by (simp add: after_fn_def Let_def split: jsval.splits option.splits)
  then show ?thesis by (simp only: expire_calls_expire)
qed

lemma after_fn_past:
  "p < length (promises s) \<Longrightarrow> past_fn (phase (promises (after_fn m p a r s) ! p))"
  by (simp add: after_fn_def Let_def split: jsval.splits option.splits)

text \<open>The one step that calls the expireIn function.\<close>

lemma expire_count_step:
  "count (is_expire p) (trace (step m ev s)) =
     count (is_expire p) (trace s) +
     (if (\<exists>r. ev = FnSettles p (Fulfilled r)) \<and> p < length (promises s) \<and>
         phase (promises s ! p) = AwaitFn \<and> (\<exists>h. expireIn (options m) = Some (ExpireInFn h))
      then 1 else 0)"
proof (cases ev)
  case (Call a)
  then show ?thesis by (simp add: call_def Let_def split: sum.splits option.splits)
next
  case (GetSettles q res)
  then show ?thesis by (cases res) (simp_all add: after_get_expire)
next
  case (FnSettles q res)
  show ?thesis
  proof (cases res)
    case (Rejected e)
    with FnSettles show ?thesis by simp
  next
    case (Fulfilled r)
    show ?thesis
    proof (cases "q < length (promises s) \<and> phase (promises s ! q) = AwaitFn")
      case True
      then have "step m ev s = after_fn m q (args (promises s ! q)) r s"
        unfolding FnSettles Fulfilled by simp
      then show ?thesis using True unfolding FnSettles Fulfilled
        by (simp only: after_fn_expire) auto
    next
      case False
      then have "step m ev s = s" unfolding FnSettles Fulfilled by auto
      then show ?thesis using False unfolding FnSettles Fulfilled by auto
    qed
  qed
next
  case (SetSettles q res)
  then show ?thesis by (cases res) (simp_all split: phase.splits)
next
  case (Finally q)
  then show ?thesis by (simp split: phase.splits)
next
  case (Resolve q)
  then show ?thesis by (simp split: phase.splits)
qed

lemma expire_ok_step:
  assumes ok: "expire_ok s p"
  shows "expire_ok (step m ev s) p"
proof (cases "(\<exists>r. ev = FnSettles p (Fulfilled r)) \<and> p < length (promises s) \<and>
         phase (promises s ! p) = AwaitFn")
  case True
  then obtain r where ev: "ev = FnSettles p (Fulfilled r)" and lt: "p < length (promises s)"
    and ph: "phase (promises s ! p) = AwaitFn" by blast
  from ok lt ph have z: "count (is_expire p) (trace s) = 0" by (simp add: expire_ok_def)
  have st: "step m ev s = after_fn m p (args (promises s ! p)) r s"
    unfolding ev using lt ph by simp
  have "count (is_expire p) (trace (step m ev s)) \<le> 1"
    unfolding st after_fn_expire z by simp
  moreover have "p < length (promises (step m ev s))" unfolding st using lt by simp
  moreover have "past_fn (phase (promises (step m ev s) ! p))"
    unfolding st by (rule after_fn_past[OF lt])
  ultimately show ?thesis by (simp add: expire_ok_def)
next
  case False
  then have same: "count (is_expire p) (trace (step m ev s)) = count (is_expire p) (trace s)"
    using expire_count_step[of p m ev s] by auto
  show ?thesis
  proof (cases "p < length (promises s) \<and> past_fn (phase (promises s ! p))")
    case True
    with past_fn_step[of p s m ev] have
      "p < length (promises (step m ev s)) \<and> past_fn (phase (promises (step m ev s) ! p))"
      by blast
    with ok True same show ?thesis by (simp add: expire_ok_def)
  next
    case False
    with ok have "count (is_expire p) (trace s) = 0" by (simp add: expire_ok_def)
    with same show ?thesis by (simp add: expire_ok_def)
  qed
qed

lemma expire_ok_exec: "expire_ok s p \<Longrightarrow> expire_ok (exec m s evs) p"
  by (induction evs arbitrary: s) (simp_all add: expire_ok_step)

lemma expire_ok_init: "expire_ok (init_state d) p"
  by (simp add: expire_ok_def init_state_def)

lemma expire_run:
  assumes "p < length (promises (exec m (init_state d) evs))"
    and "\<not> past_fn (phase (promises (exec m (init_state d) evs) ! p))"
  shows "count (is_expire p) (trace (exec m (init_state d) evs)) = 0"
proof -
  have "expire_ok (exec m (init_state d) evs) p" by (rule expire_ok_exec[OF expire_ok_init])
  with assms show ?thesis by (simp add: expire_ok_def)
qed


section \<open>The claims\<close>

subsection \<open>Fingerprints\<close>

text \<open>
  C2. Claim: two argument lists have the same fingerprint only if they are equal, and the
  separator of \<^verbatim>\<open>join\<close> never occurs inside the serialisation of an element. The code does
  not keep this. The separator is the full stop, which is also the decimal point of
  \<^verbatim>\<open>JSON.stringify\<close> on a number and is copied unchanged from a string: the one-element list
  \<^verbatim>\<open>[1.5]\<close> and the two-element list \<^verbatim>\<open>[1, 5]\<close> both have the fingerprint \<^verbatim>\<open>1.5\<close>, and the
  serialisation of the string \<^verbatim>\<open>a.b\<close> contains the separator.
\<close>

theorem stringifyKey_collision:
  "stringifyKey [num1_5] = Inr ''1.5'' \<and>
   stringifyKey [num1, num5] = Inr ''1.5'' \<and>
   length [num1_5] = 1 \<and> length [num1, num5] = 2 \<and>
   stringify_part (KString ''a.b'') = Inr [CHR 0x22, CHR ''a'', CHR ''.'', CHR ''b'', CHR 0x22]"
  by code_simp

text \<open>
  C9. Claim: computing the composite key and the fingerprint never fails on key parts of the
  accepted types. A \<^verbatim>\<open>bigint\<close> is a key part, and \<^verbatim>\<open>JSON.stringify\<close> throws on it: the
  fingerprint of \<^verbatim>\<open>[1n]\<close> is a \<^verbatim>\<open>TypeError\<close>, which the memoized function throws to its caller
  before any promise is made.
\<close>

theorem stringifyKey_bigint_throws:
  "stringifyKey [KBigInt 1] = Inl TypeError \<and> call m s [KBigInt 1] = Inl TypeError"
  by (simp add: stringifyKey_def stringify_part_def call_def)

subsection \<open>The coalescer\<close>




text \<open>
  C1. Claim: \<open>N \<ge> 2\<close> calls with the same arguments, all made before any of them settles, make
  exactly one call of \<^verbatim>\<open>fn\<close>, one store read and one store write, and all get the same
  outcome. On a store that already holds \<open>3\<close> for the arguments, two such calls get the same
  promise, which settles with \<open>3\<close>, and \<^verbatim>\<open>fn\<close> is called zero times, not once: the whole record of
  calls is one store read and one \<^verbatim>\<open>cache.delete\<close>. And the entry is removed by the callback of
  \<^verbatim>\<open>finally\<close>, which runs before the promise that \<^verbatim>\<open>finally\<close> returned settles: a call made in
  between, while the first promise is still pending, is given a new promise.
\<close>

theorem one_invocation_counterexample:
  "promise_of (call m_sums (init_state db_hit) a12) = Inr 0 \<and>
   promise_of (call m_sums hit1 a12) = Inr 0 \<and>
   phase_of hit_done 0 = Some (Settled (Fulfilled (Val 3))) \<and>
   trace hit_done = [CallGet 0 [KString ''sums'', num1, num2], CacheDelete 0 ''1.2''] \<and>
   count (is_fn 0) (trace hit_done) = 0 \<and>
   phase_of hit_removed 0 = Some (Removed (Fulfilled (Val 3))) \<and>
   promise_of (call m_sums hit_removed a12) = Inr 1"
proof -
  have 1: "promise_of (call m_sums (init_state db_hit) a12) = Inr 0" by code_simp
  have 2: "promise_of (call m_sums hit1 a12) = Inr 0" by code_simp
  have 3: "phase_of hit_done 0 = Some (Settled (Fulfilled (Val 3)))" by code_simp
  have 4: "trace hit_done = [CallGet 0 [KString ''sums'', num1, num2], CacheDelete 0 ''1.2'']"
    by code_simp
  have 5: "count (is_fn 0) (trace hit_done) = 0" by code_simp
  have 6: "phase_of hit_removed 0 = Some (Removed (Fulfilled (Val 3)))" by code_simp
  have 7: "promise_of (call m_sums hit_removed a12) = Inr 1" by code_simp
  show ?thesis
    by (rule conjI[OF 1 conjI[OF 2 conjI[OF 3 conjI[OF 4 conjI[OF 5 conjI[OF 6 7]]]]]])
qed

text \<open>
  C1, as the code has it. Let a call in a reachable state return promise \<open>p\<close>. Any number of
  further calls with the same arguments made at once leave the state as that one call left
  it. At every later time \<open>p\<close> has made exactly one store read, at most one call of \<^verbatim>\<open>fn\<close>
  (exactly one while it waits for \<^verbatim>\<open>fn\<close>) and at most one store write; as long as \<open>p\<close> is
  registered under the fingerprint, a call with these arguments returns \<open>p\<close> and changes
  nothing, so nothing is invoked again; and once \<open>p\<close> has settled its outcome stays, so every
  caller that holds \<open>p\<close> sees the same value or the same failure. The counts are exact,
  whatever happens after the step that decides them. While \<open>p\<close> waits for the store read:
  when the read fails, or gives a non-nullish value that \<^verbatim>\<open>shouldRecalculate\<close> is absent for or
  keeps, \<open>p\<close> never calls \<^verbatim>\<open>fn\<close> and never writes; when the read gives a nullish value, or a
  value that \<^verbatim>\<open>shouldRecalculate\<close> rejects, \<open>p\<close> calls \<^verbatim>\<open>fn\<close> exactly once. While \<open>p\<close> waits for
  \<^verbatim>\<open>fn\<close>, which it has called exactly once for good: when \<^verbatim>\<open>fn\<close> gives a non-nullish result that
  \<^verbatim>\<open>shouldCache\<close> is absent for or accepts, \<open>p\<close> writes exactly once; when the result is nullish
  or refused by \<^verbatim>\<open>shouldCache\<close>, or \<^verbatim>\<open>fn\<close> fails, \<open>p\<close> never writes.
\<close>

theorem coalesced_calls_share_one_computation:
  assumes s0: "s0 = exec m (init_state d) evs0"
    and c: "call m s0 a = Inr (p, s1)"
    and s': "s' = exec m s1 evs"
    and b: "b = args (promises s' ! p)"
  shows "exec m s0 (replicate (Suc n) (Call a)) = s1 \<and>
         count (is_get p) (trace s') = 1 \<and>
         count (is_fn p) (trace s') \<le> 1 \<and>
         count (is_set p) (trace s') \<le> 1 \<and>
         (phase_of s' p = Some AwaitFn \<longrightarrow> count (is_fn p) (trace s') = 1) \<and>
         (stringifyKey a = Inr ck \<and> cache s' ck = Some p \<longrightarrow> call m s' a = Inr (p, s')) \<and>
         (phase_of s' p = Some (Settled out) \<longrightarrow>
            phase_of (exec m s' evs') p = Some (Settled out)) \<and>
         (phase_of s' p = Some AwaitGet \<longrightarrow>
            count (is_fn p) (trace (exec m s' (GetSettles p (Some err) # evs'))) = 0 \<and>
            count (is_set p) (trace (exec m s' (GetSettles p (Some err) # evs'))) = 0) \<and>
         (phase_of s' p = Some AwaitGet \<and> store_get m (db s') (key m @ b) = Val v \<and>
          (shouldRecalculate (options m) = None \<or>
           (\<exists>f. shouldRecalculate (options m) = Some f \<and> \<not> f v b)) \<longrightarrow>
            count (is_fn p) (trace (exec m s' (GetSettles p None # evs'))) = 0 \<and>
            count (is_set p) (trace (exec m s' (GetSettles p None # evs'))) = 0) \<and>
         (phase_of s' p = Some AwaitGet \<and>
          (nullish (store_get m (db s') (key m @ b)) \<or>
           (\<exists>f. store_get m (db s') (key m @ b) = Val v \<and>
                shouldRecalculate (options m) = Some f \<and> f v b)) \<longrightarrow>
            count (is_fn p) (trace (exec m s' (GetSettles p None # evs'))) = 1) \<and>
         (phase_of s' p = Some AwaitFn \<and>
          (shouldCache (options m) = None \<or> (\<exists>g. shouldCache (options m) = Some g \<and> g r b)) \<longrightarrow>
            count (is_fn p) (trace (exec m s' (FnSettles p (Fulfilled (Val r)) # evs'))) = 1 \<and>
            count (is_set p) (trace (exec m s' (FnSettles p (Fulfilled (Val r)) # evs'))) = 1) \<and>
         (phase_of s' p = Some AwaitFn \<and>
          (nullish x \<or> (\<exists>g. x = Val r \<and> shouldCache (options m) = Some g \<and> \<not> g r b)) \<longrightarrow>
            count (is_fn p) (trace (exec m s' (FnSettles p (Fulfilled x) # evs'))) = 1 \<and>
            count (is_set p) (trace (exec m s' (FnSettles p (Fulfilled x) # evs'))) = 0) \<and>
         (phase_of s' p = Some AwaitFn \<longrightarrow>
            count (is_fn p) (trace (exec m s' (FnSettles p (Rejected err) # evs'))) = 1 \<and>
            count (is_set p) (trace (exec m s' (FnSettles p (Rejected err) # evs'))) = 0)"
proof -
  have s1: "s1 = exec m (init_state d) (evs0 @ [Call a])"
    using c by (simp add: exec_append s0)
  have run: "s' = exec m (init_state d) (evs0 @ [Call a] @ evs)"
    by (simp add: exec_append s' s0 s1)
  from call_registers[OF c] obtain k where k: "stringifyKey a = Inr k" "cache s1 k = Some p"
    by blast
  have "inv_cache s1" unfolding s1 by (rule inv_cache_exec[OF init_invs(1)])
  from inv_cacheD1[OF this k(2)] have "p < length (promises s1)" by simp
  with exec_length[of s1 m evs] have lt: "p < length (promises s')" by (simp add: s')
  note cnt = counts_run[OF lt[unfolded run], folded run]
  note le = calls_ok_le[OF cnt(2)]
  have 1: "exec m s0 (replicate (Suc n) (Call a)) = s1" by (rule calls_collapse[OF c])
  have 5: "phase_of s' p = Some AwaitFn \<longrightarrow> count (is_fn p) (trace s') = 1"
  proof
    assume "phase_of s' p = Some AwaitFn"
    with lt have "phase (promises s' ! p) = AwaitFn" by (simp add: phase_of_def)
    with cnt(2) show "count (is_fn p) (trace s') = 1" by simp
  qed
  have 6: "stringifyKey a = Inr ck \<and> cache s' ck = Some p \<longrightarrow> call m s' a = Inr (p, s')"
    by (simp add: call_joins)
  have 7: "phase_of s' p = Some (Settled out) \<longrightarrow>
            phase_of (exec m s' evs') p = Some (Settled out)"
    using settled_exec[of p s' out m evs'] lt by (simp add: phase_of_def)
  have pb: "past_fn (BodySettled o')" for o' :: "'a settled" by simp
  have ps: "past_fn (AwaitSet r' e')" for r' :: 'a and e' by simp
  have get: "phase (promises s' ! p) = AwaitGet \<and>
      count (is_fn p) (trace s') = 0 \<and> count (is_set p) (trace s') = 0"
    if "phase_of s' p = Some AwaitGet"
  proof -
    from that lt have ph: "phase (promises s' ! p) = AwaitGet" by (simp add: phase_of_def)
    with cnt(2) show ?thesis by simp
  qed
  have fn: "phase (promises s' ! p) = AwaitFn \<and> count (is_set p) (trace s') = 0 \<and>
      count (is_fn p) (trace (exec m s' evs2)) = 1"
    if "phase_of s' p = Some AwaitFn" for evs2
  proof -
    from that lt have ph: "phase (promises s' ! p) = AwaitFn" by (simp add: phase_of_def)
    with cnt(2) have "count (is_set p) (trace s') = 0" by simp
    with ph fn_called_once[OF run lt ph, of evs2] show ?thesis by simp
  qed
  have 8: "phase_of s' p = Some AwaitGet \<longrightarrow>
            count (is_fn p) (trace (exec m s' (GetSettles p (Some err) # evs'))) = 0 \<and>
            count (is_set p) (trace (exec m s' (GetSettles p (Some err) # evs'))) = 0"
  proof
    assume "phase_of s' p = Some AwaitGet"
    note g = get[OF this]
    from g have ph: "phase (promises s' ! p) = AwaitGet" by (elim conjE)
    have st: "step m (GetSettles p (Some err)) s' = advance p (BodySettled (Rejected err)) (emit [] s')"
      using get_fails[OF lt ph, of m err] by simp
    note sc = settle_counts[OF lt st, of evs']
    show "count (is_fn p) (trace (exec m s' (GetSettles p (Some err) # evs'))) = 0 \<and>
          count (is_set p) (trace (exec m s' (GetSettles p (Some err) # evs'))) = 0"
      unfolding sc(1)[OF pb] sc(2)[OF pb] using g by simp
  qed
  have 9: "phase_of s' p = Some AwaitGet \<and> store_get m (db s') (key m @ b) = Val v \<and>
          (shouldRecalculate (options m) = None \<or>
           (\<exists>f. shouldRecalculate (options m) = Some f \<and> \<not> f v b)) \<longrightarrow>
            count (is_fn p) (trace (exec m s' (GetSettles p None # evs'))) = 0 \<and>
            count (is_set p) (trace (exec m s' (GetSettles p None # evs'))) = 0"
  proof (intro impI, elim conjE)
    assume "phase_of s' p = Some AwaitGet"
      and hit: "store_get m (db s') (key m @ b) = Val v"
      and no: "shouldRecalculate (options m) = None \<or>
           (\<exists>f. shouldRecalculate (options m) = Some f \<and> \<not> f v b)"
    note g = get[OF \<open>phase_of s' p = Some AwaitGet\<close>]
    from g have ph: "phase (promises s' ! p) = AwaitGet" by (elim conjE)
    define es where "es = (case shouldRecalculate (options m) of None \<Rightarrow> []
                       | Some f \<Rightarrow> [CallShouldRecalculate p v b])"
    have st: "step m (GetSettles p None) s' = advance p (BodySettled (Fulfilled (Val v))) (emit es s')"
      unfolding es_def by (rule get_hit_kept[OF lt ph b hit no])
    have ces: "count (is_fn p) es = 0" "count (is_set p) es = 0"
      unfolding es_def by (simp_all split: option.splits)
    note sc = settle_counts[OF lt st, of evs']
    show "count (is_fn p) (trace (exec m s' (GetSettles p None # evs'))) = 0 \<and>
          count (is_set p) (trace (exec m s' (GetSettles p None # evs'))) = 0"
      unfolding sc(1)[OF pb] sc(2)[OF pb] using g ces by simp
  qed
  have 10: "phase_of s' p = Some AwaitGet \<and>
          (nullish (store_get m (db s') (key m @ b)) \<or>
           (\<exists>f. store_get m (db s') (key m @ b) = Val v \<and>
                shouldRecalculate (options m) = Some f \<and> f v b)) \<longrightarrow>
            count (is_fn p) (trace (exec m s' (GetSettles p None # evs'))) = 1"
  proof (intro impI, elim conjE)
    assume "phase_of s' p = Some AwaitGet"
      and why: "nullish (store_get m (db s') (key m @ b)) \<or>
           (\<exists>f. store_get m (db s') (key m @ b) = Val v \<and>
                shouldRecalculate (options m) = Some f \<and> f v b)"
    note g = get[OF \<open>phase_of s' p = Some AwaitGet\<close>]
    from g have ph: "phase (promises s' ! p) = AwaitGet" by (elim conjE)
    define t where "t = step m (GetSettles p None) s'"
    from why have "\<exists>es. t = advance p AwaitFn (emit es s')"
    proof
      assume "nullish (store_get m (db s') (key m @ b))"
      from get_miss[OF lt ph b this] show ?thesis unfolding t_def by blast
    next
      assume "\<exists>f. store_get m (db s') (key m @ b) = Val v \<and>
                shouldRecalculate (options m) = Some f \<and> f v b"
      then obtain f where "store_get m (db s') (key m @ b) = Val v"
        "shouldRecalculate (options m) = Some f" "f v b" by blast
      from get_hit_recalculated[OF lt ph b this] show ?thesis unfolding t_def by blast
    qed
    then obtain es where e: "t = advance p AwaitFn (emit es s')" by blast
    have lt1: "p < length (promises t)" unfolding e using lt by simp
    have p1: "phase (promises t ! p) = AwaitFn" unfolding e using lt by simp
    have run1: "t = exec m (init_state d) ((evs0 @ [Call a] @ evs) @ [GetSettles p None])"
      unfolding t_def run by (simp only: exec_append exec.simps)
    have "count (is_fn p) (trace (exec m t evs')) = 1" by (rule fn_called_once[OF run1 lt1 p1])
    then show "count (is_fn p) (trace (exec m s' (GetSettles p None # evs'))) = 1"
      unfolding t_def by (simp only: exec.simps)
  qed
  have 11: "phase_of s' p = Some AwaitFn \<and>
          (shouldCache (options m) = None \<or> (\<exists>g. shouldCache (options m) = Some g \<and> g r b)) \<longrightarrow>
            count (is_fn p) (trace (exec m s' (FnSettles p (Fulfilled (Val r)) # evs'))) = 1 \<and>
            count (is_set p) (trace (exec m s' (FnSettles p (Fulfilled (Val r)) # evs'))) = 1"
  proof (intro impI, elim conjE)
    assume "phase_of s' p = Some AwaitFn"
      and sc: "shouldCache (options m) = None \<or> (\<exists>g. shouldCache (options m) = Some g \<and> g r b)"
    note f = fn[OF \<open>phase_of s' p = Some AwaitFn\<close>, of "FnSettles p (Fulfilled (Val r)) # evs'"]
    from f have ph: "phase (promises s' ! p) = AwaitFn" by (elim conjE)
    define e where "e = expire_value m (Val r) b"
    define es where "es = expire_calls m p (Val r) b @
                       (case shouldCache (options m) of None \<Rightarrow> []
                        | Some g \<Rightarrow> [CallShouldCache p r b]) @
                       [CallSet p (key m @ b) r e]"
    have st: "step m (FnSettles p (Fulfilled (Val r))) s' = advance p (AwaitSet r e) (emit es s')"
      unfolding es_def e_def by (rule fn_cached[OF lt ph b sc])
    have ces: "count (is_set p) es = 1"
      unfolding es_def by (simp add: expire_calls_counts split: option.splits)
    have "count (is_set p) (trace (exec m s' (FnSettles p (Fulfilled (Val r)) # evs'))) = 1" (is ?set)
      unfolding settle_counts(2)[OF lt st ps] using f[THEN conjunct2, THEN conjunct1] ces by simp
    then have f2: ?set .
    note f1 = f[THEN conjunct2, THEN conjunct2]
    show "count (is_fn p) (trace (exec m s' (FnSettles p (Fulfilled (Val r)) # evs'))) = 1 \<and>
            count (is_set p) (trace (exec m s' (FnSettles p (Fulfilled (Val r)) # evs'))) = 1"
      by (rule conjI[OF f1 f2])
  qed
  have 12: "phase_of s' p = Some AwaitFn \<and>
          (nullish x \<or> (\<exists>g. x = Val r \<and> shouldCache (options m) = Some g \<and> \<not> g r b)) \<longrightarrow>
            count (is_fn p) (trace (exec m s' (FnSettles p (Fulfilled x) # evs'))) = 1 \<and>
            count (is_set p) (trace (exec m s' (FnSettles p (Fulfilled x) # evs'))) = 0"
  proof (intro impI, elim conjE)
    assume "phase_of s' p = Some AwaitFn"
      and why: "nullish x \<or> (\<exists>g. x = Val r \<and> shouldCache (options m) = Some g \<and> \<not> g r b)"
    note f = fn[OF \<open>phase_of s' p = Some AwaitFn\<close>, of "FnSettles p (Fulfilled x) # evs'"]
    from f have ph: "phase (promises s' ! p) = AwaitFn" by (elim conjE)
    from why have "\<exists>es. step m (FnSettles p (Fulfilled x)) s' =
        advance p (BodySettled (Fulfilled x)) (emit es s') \<and> count (is_set p) es = 0"
    proof
      assume "nullish x"
      from fn_nullish[OF lt ph b this, of m] expire_calls_counts(2)[of p m p x b]
      show ?thesis by blast
    next
      assume "\<exists>g. x = Val r \<and> shouldCache (options m) = Some g \<and> \<not> g r b"
      then obtain g where x: "x = Val r" and g: "shouldCache (options m) = Some g" "\<not> g r b"
        by blast
      have "count (is_set p) (expire_calls m p (Val r) b @ [CallShouldCache p r b]) = 0"
        by (simp add: expire_calls_counts)
      with fn_not_cached[OF lt ph b g] show ?thesis unfolding x by blast
    qed
    then obtain es where st: "step m (FnSettles p (Fulfilled x)) s' =
        advance p (BodySettled (Fulfilled x)) (emit es s')" and ces: "count (is_set p) es = 0"
      by blast
    have "count (is_set p) (trace (exec m s' (FnSettles p (Fulfilled x) # evs'))) = 0" (is ?set)
      unfolding settle_counts(2)[OF lt st pb] using f[THEN conjunct2, THEN conjunct1] ces by simp
    then have f2: ?set .
    note f1 = f[THEN conjunct2, THEN conjunct2]
    show "count (is_fn p) (trace (exec m s' (FnSettles p (Fulfilled x) # evs'))) = 1 \<and>
            count (is_set p) (trace (exec m s' (FnSettles p (Fulfilled x) # evs'))) = 0"
      by (rule conjI[OF f1 f2])
  qed
  have 13: "phase_of s' p = Some AwaitFn \<longrightarrow>
            count (is_fn p) (trace (exec m s' (FnSettles p (Rejected err) # evs'))) = 1 \<and>
            count (is_set p) (trace (exec m s' (FnSettles p (Rejected err) # evs'))) = 0"
  proof
    assume "phase_of s' p = Some AwaitFn"
    note f = fn[OF this, of "FnSettles p (Rejected err) # evs'"]
    from f have ph: "phase (promises s' ! p) = AwaitFn" by (elim conjE)
    have st: "step m (FnSettles p (Rejected err)) s' = advance p (BodySettled (Rejected err)) (emit [] s')"
      using fn_fails[OF lt ph, of m err] by simp
    have "count (is_set p) (trace (exec m s' (FnSettles p (Rejected err) # evs'))) = 0" (is ?set)
      unfolding settle_counts(2)[OF lt st pb] using f[THEN conjunct2, THEN conjunct1] by simp
    then have f2: ?set .
    note f1 = f[THEN conjunct2, THEN conjunct2]
    show "count (is_fn p) (trace (exec m s' (FnSettles p (Rejected err) # evs'))) = 1 \<and>
            count (is_set p) (trace (exec m s' (FnSettles p (Rejected err) # evs'))) = 0"
      by (rule conjI[OF f1 f2])
  qed
  show ?thesis
    by (rule conjI[OF 1 conjI[OF cnt(1) conjI[OF le[THEN conjunct1]
          conjI[OF le[THEN conjunct2, THEN conjunct1] conjI[OF 5 conjI[OF 6 conjI[OF 7
          conjI[OF 8 conjI[OF 9 conjI[OF 10 conjI[OF 11 conjI[OF 12 13]]]]]]]]]]]])
qed


theorem coalesced_calls_share_one_computation_witness:
  "call m_sums (init_state Map.empty) a12 = Inr (0, miss1) \<and>
   exec m_sums (init_state Map.empty) (replicate (Suc 9) (Call a12)) = miss1 \<and>
   count (is_get 0) (trace miss_done) = 1 \<and>
   count (is_fn 0) (trace miss_done) \<le> 1 \<and>
   count (is_set 0) (trace miss_done) \<le> 1 \<and>
   phase_of miss_fn 0 = Some AwaitFn \<and>
   count (is_fn 0) (trace miss_fn) = 1 \<and>
   cache miss_fn ''1.2'' = Some 0 \<and>
   call m_sums miss_fn a12 = Inr (0, miss_fn) \<and>
   phase_of miss_done 0 = Some (Settled (Fulfilled (Val 3))) \<and>
   phase_of (exec m_sums miss_done [Call a12]) 0 = Some (Settled (Fulfilled (Val 3))) \<and>
   phase_of miss1 0 = Some AwaitGet \<and>
   count (is_fn 0) (trace (exec m_sums miss1 [GetSettles 0 (Some (Thrown 7)), Finally 0, Resolve 0])) = 0 \<and>
   count (is_set 0) (trace (exec m_sums miss1 [GetSettles 0 (Some (Thrown 7)), Finally 0, Resolve 0])) = 0 \<and>
   nullish (store_get m_sums (db miss1) (key m_sums @ a12)) \<and>
   count (is_fn 0) (trace miss_done) = 1 \<and>
   count (is_set 0) (trace miss_done) = 1 \<and>
   count (is_fn 0) (trace (exec m_sums miss_fn [FnSettles 0 (Rejected (Thrown 7)), Finally 0])) = 1 \<and>
   count (is_set 0) (trace (exec m_sums miss_fn [FnSettles 0 (Rejected (Thrown 7)), Finally 0])) = 0 \<and>
   count (is_set 0) (trace (exec m_sums miss_fn [FnSettles 0 (Fulfilled Null), Finally 0])) = 0 \<and>
   call m_sums (init_state db_hit) a12 = Inr (0, hit1) \<and>
   phase_of hit1 0 = Some AwaitGet \<and>
   store_get m_sums (db hit1) (key m_sums @ a12) = Val 3 \<and>
   count (is_fn 0) (trace hit_done) = 0 \<and>
   count (is_set 0) (trace hit_done) = 0"
proof -
  have r: "init_state Map.empty = exec m_sums (init_state Map.empty) []" by simp
  have h: "call m_sums (init_state Map.empty) a12 = Inr (0, miss1)"
    by (simp add: miss1_def call_def fp_a12 init_state_def Let_def)
  have h1: "phase_of miss_fn 0 = Some AwaitFn" by code_simp
  have h2: "cache miss_fn ''1.2'' = Some 0" by code_simp
  have h3: "phase_of miss_done 0 = Some (Settled (Fulfilled (Val 3)))" by code_simp
  have bf: "a12 = args (promises miss_fn ! 0)" by code_simp
  have bd: "a12 = args (promises miss_done ! 0)" by code_simp
  note a = coalesced_calls_share_one_computation[OF r h miss_fn_def bf, where n=9 and ck="''1.2''"
      and out="Fulfilled (Val 3)" and evs'="[Call a12]"]
  note b = coalesced_calls_share_one_computation[OF r h miss_done_def bd, where n=9 and ck="''1.2''"
      and out="Fulfilled (Val 3)" and evs'="[Call a12]"]
  note b1 = b[THEN conjunct1] and b2 = b[THEN conjunct2, THEN conjunct1]
    and b3 = b[THEN conjunct2, THEN conjunct2, THEN conjunct1]
    and b4 = b[THEN conjunct2, THEN conjunct2, THEN conjunct2, THEN conjunct1]
    and b7 = b[THEN conjunct2, THEN conjunct2, THEN conjunct2, THEN conjunct2, THEN conjunct2,
        THEN conjunct2, THEN conjunct1, THEN mp, OF h3]
  note a5 = a[THEN conjunct2, THEN conjunct2, THEN conjunct2, THEN conjunct2, THEN conjunct1,
        THEN mp, OF h1]
    and a6 = a[THEN conjunct2, THEN conjunct2, THEN conjunct2, THEN conjunct2, THEN conjunct2,
        THEN conjunct1, THEN mp, OF conjI[OF fp_a12 h2]]
  have e1: "miss1 = exec m_sums miss1 []" by simp
  have b1': "a12 = args (promises miss1 ! 0)" by code_simp
  have g1: "phase_of miss1 0 = Some AwaitGet" by code_simp
  have nl: "nullish (store_get m_sums (db miss1) (key m_sums @ a12))" by code_simp
  note u = coalesced_calls_share_one_computation[OF r h e1 b1', where err="Thrown 7"
      and evs'="[Finally 0, Resolve 0]", THEN conjunct2, THEN conjunct2, THEN conjunct2,
      THEN conjunct2, THEN conjunct2, THEN conjunct2, THEN conjunct2]
  note u8 = u[THEN conjunct1, THEN mp, OF g1]
  note w = coalesced_calls_share_one_computation[OF r h e1 b1', where v=0
      and evs'="[FnSettles 0 (Fulfilled (Val 3)), SetSettles 0 None, Finally 0, Resolve 0]",
      THEN conjunct2, THEN conjunct2, THEN conjunct2,
      THEN conjunct2, THEN conjunct2, THEN conjunct2, THEN conjunct2]
  note w10 = w[THEN conjunct2, THEN conjunct2, THEN conjunct1, THEN mp,
      OF conjI[OF g1 disjI1[OF nl]], folded miss_done_def]
  have sc: "shouldCache (options m_sums) = None" by (simp add: m_sums_def no_options_def)
  note x = coalesced_calls_share_one_computation[OF r h miss_fn_def bf, where r=3
      and evs'="[SetSettles 0 None, Finally 0, Resolve 0]",
      THEN conjunct2, THEN conjunct2, THEN conjunct2,
      THEN conjunct2, THEN conjunct2, THEN conjunct2, THEN conjunct2,
      THEN conjunct2, THEN conjunct2, THEN conjunct2]
  have md: "exec m_sums miss_fn [FnSettles 0 (Fulfilled (Val 3)), SetSettles 0 None, Finally 0, Resolve 0]
      = miss_done" unfolding miss_fn_def miss_done_def by (simp only: exec.simps)
  note x11 = x[THEN conjunct1, THEN mp, OF conjI[OF h1 disjI1[OF sc]], unfolded md]
  note y = coalesced_calls_share_one_computation[OF r h miss_fn_def bf, where err="Thrown 7"
      and x=Null and r=0 and evs'="[Finally 0]",
      THEN conjunct2, THEN conjunct2, THEN conjunct2,
      THEN conjunct2, THEN conjunct2, THEN conjunct2, THEN conjunct2,
      THEN conjunct2, THEN conjunct2, THEN conjunct2, THEN conjunct2]
  have nn: "nullish (Null :: int jsval)" by simp
  note y12 = y[THEN conjunct1, THEN mp, OF conjI[OF h1 disjI1[OF nn]]]
  note y13 = y[THEN conjunct2, THEN mp, OF h1]
  have r': "init_state db_hit = exec m_sums (init_state db_hit) []" by simp
  have h': "call m_sums (init_state db_hit) a12 = Inr (0, hit1)"
    by (simp add: hit1_def call_def fp_a12 init_state_def Let_def)
  have e2: "hit1 = exec m_sums hit1 []" by simp
  have b2': "a12 = args (promises hit1 ! 0)" by code_simp
  have g2: "phase_of hit1 0 = Some AwaitGet" by code_simp
  have v2: "store_get m_sums (db hit1) (key m_sums @ a12) = Val 3" by code_simp
  have n2: "shouldRecalculate (options m_sums) = None" by (simp add: m_sums_def no_options_def)
  note z = coalesced_calls_share_one_computation[OF r' h' e2 b2', where v=3
      and evs'="[Finally 0, Resolve 0]",
      THEN conjunct2, THEN conjunct2, THEN conjunct2,
      THEN conjunct2, THEN conjunct2, THEN conjunct2, THEN conjunct2, THEN conjunct2]
  note z9 = z[THEN conjunct1, THEN mp, OF conjI[OF g2 conjI[OF v2 disjI1[OF n2]]],
      folded hit_done_def]
  show ?thesis
    by (rule conjI[OF h conjI[OF b1 conjI[OF b2 conjI[OF b3 conjI[OF b4 conjI[OF h1
          conjI[OF a5 conjI[OF h2 conjI[OF a6 conjI[OF h3 conjI[OF b7
          conjI[OF g1 conjI[OF u8[THEN conjunct1] conjI[OF u8[THEN conjunct2]
          conjI[OF nl conjI[OF w10 conjI[OF x11[THEN conjunct2]
          conjI[OF y13[THEN conjunct1] conjI[OF y13[THEN conjunct2]
          conjI[OF y12[THEN conjunct2] conjI[OF h' conjI[OF g2 conjI[OF v2
          conjI[OF z9[THEN conjunct1] z9[THEN conjunct2]]]]]]]]]]]]]]]]]]]]]]]]])
qed

subsection \<open>Nullish values\<close>



text \<open>
  C8. Claim: the \<^verbatim>\<open>expireIn\<close> function is called only for a non-nullish result. The code
  computes the expiration before it tests the result (lines 99 to 103), and the type of
  \<^verbatim>\<open>expireIn\<close> takes a result of type \<^verbatim>\<open>R\<close>, not \<^verbatim>\<open>NonNullable<R>\<close> as the two other policies do:
  with an \<^verbatim>\<open>expireIn\<close> function and an \<^verbatim>\<open>fn\<close> that gives \<^verbatim>\<open>undefined\<close>, the function is called with
  \<^verbatim>\<open>undefined\<close>.
\<close>

theorem expireIn_sees_nullish_counterexample:
  "expireIn (options m_policy) = Some (ExpireInFn (\<lambda>result a. Some 1000)) \<and>
   phase_of policy_fn 0 = Some AwaitFn \<and>
   nullish (Undefined :: int jsval) \<and>
   trace policy_undefined =
     [CallGet 0 [KString ''p'', num1, num2], CallFn 0 a12, CallExpireIn 0 Undefined a12] \<and>
   phase_of policy_undefined 0 = Some (BodySettled (Fulfilled Undefined))"
proof -
  have 1: "expireIn (options m_policy) = Some (ExpireInFn (\<lambda>result a. Some 1000))"
    by (simp add: m_policy_def policy_options_def)
  have 2: "phase_of policy_fn 0 = Some AwaitFn" by code_simp
  have 3: "nullish (Undefined :: int jsval)" by simp
  have 4: "trace policy_undefined =
     [CallGet 0 [KString ''p'', num1, num2], CallFn 0 a12, CallExpireIn 0 Undefined a12]"
    by code_simp
  have 5: "phase_of policy_undefined 0 = Some (BodySettled (Fulfilled Undefined))" by code_simp
  show ?thesis by (rule conjI[OF 1 conjI[OF 2 conjI[OF 3 conjI[OF 4 5]]]])
qed


text \<open>
  C8, as the code has it. For a promise of a reachable state that waits for \<^verbatim>\<open>fn\<close>: it has
  not called the \<^verbatim>\<open>expireIn\<close> function yet. When \<^verbatim>\<open>fn\<close> has given a result, nullish or not, the
  first thing the body does is to call the \<^verbatim>\<open>expireIn\<close> function on it, if \<^verbatim>\<open>expireIn\<close> is a
  function, and whatever happens later the promise has called it exactly once; for a
  nullish result this is the only call, the body settles with the result and the store is
  left as it is, so the expiration is not used. With an \<^verbatim>\<open>expireIn\<close> that is absent or a
  number, and when \<^verbatim>\<open>fn\<close> fails, the promise never records a call of \<^verbatim>\<open>expireIn\<close>.
\<close>

theorem expireIn_called_on_every_result:
  assumes reach: "s = exec m (init_state d) evs0"
    and lt: "p < length (promises s)" and ph: "phase (promises s ! p) = AwaitFn"
    and a: "a = args (promises s ! p)"
    and s1: "s1 = step m (FnSettles p (Fulfilled r)) s"
  shows "(expireIn (options m) = Some (ExpireInFn h) \<longrightarrow>
            take (Suc (length (trace s))) (trace s1) = trace s @ [CallExpireIn p r a]) \<and>
         (expireIn (options m) = Some (ExpireInFn h) \<and> nullish r \<longrightarrow>
            trace s1 = trace s @ [CallExpireIn p r a]) \<and>
         (expireIn (options m) = None \<or> expireIn (options m) = Some (ExpireInNumber n) \<longrightarrow>
            expire_calls m p r a = []) \<and>
         (nullish r \<longrightarrow> phase_of s1 p = Some (BodySettled (Fulfilled r)) \<and> db s1 = db s) \<and>
         count (is_expire p) (trace s) = 0 \<and>
         (expireIn (options m) = Some (ExpireInFn h) \<longrightarrow>
            count (is_expire p) (trace (exec m s1 evs)) = 1) \<and>
         (expireIn (options m) = None \<or> expireIn (options m) = Some (ExpireInNumber n) \<longrightarrow>
            count (is_expire p) (trace (exec m s1 evs)) = 0) \<and>
         count (is_expire p) (trace (exec m (step m (FnSettles p (Rejected e)) s) evs)) = 0"
proof -
  have e: "s1 = after_fn m p a r s" unfolding s1 using lt ph a by simp
  have x: "expireIn (options m) = Some (ExpireInFn h) \<Longrightarrow>
      expire_calls m p r' a = [CallExpireIn p r' a]" for r'
    by (simp add: expire_calls_def)
  have 1: "expireIn (options m) = Some (ExpireInFn h) \<longrightarrow>
            take (Suc (length (trace s))) (trace s1) = trace s @ [CallExpireIn p r a]"
  proof
    assume f: "expireIn (options m) = Some (ExpireInFn h)"
    show "take (Suc (length (trace s))) (trace s1) = trace s @ [CallExpireIn p r a]"
      unfolding e by (cases r; cases "shouldCache (options m)")
        (simp_all add: after_fn_def Let_def x[OF f])
  qed
  have 2: "expireIn (options m) = Some (ExpireInFn h) \<and> nullish r \<longrightarrow>
            trace s1 = trace s @ [CallExpireIn p r a]"
  proof (intro impI, elim conjE)
    assume f: "expireIn (options m) = Some (ExpireInFn h)" and nl: "nullish r"
    have "s1 = advance p (BodySettled (Fulfilled r)) (emit (expire_calls m p r a) s)"
      unfolding s1 by (rule fn_nullish[OF lt ph a nl])
    then show "trace s1 = trace s @ [CallExpireIn p r a]" by (simp add: x[OF f])
  qed
  have 3: "expireIn (options m) = None \<or> expireIn (options m) = Some (ExpireInNumber n) \<longrightarrow>
            expire_calls m p r a = []"
    by (auto simp: expire_calls_def)
  have 4: "nullish r \<longrightarrow> phase_of s1 p = Some (BodySettled (Fulfilled r)) \<and> db s1 = db s"
  proof
    assume nl: "nullish r"
    have "s1 = advance p (BodySettled (Fulfilled r)) (emit (expire_calls m p r a) s)"
      unfolding s1 by (rule fn_nullish[OF lt ph a nl])
    then show "phase_of s1 p = Some (BodySettled (Fulfilled r)) \<and> db s1 = db s"
      using lt by (simp add: phase_of_def)
  qed
  have np: "\<not> past_fn (phase (promises s ! p))" unfolding ph by simp
  have 5: "count (is_expire p) (trace s) = 0"
    using lt np unfolding reach by (rule expire_run)
  have lt1: "p < length (promises s1)" unfolding e using lt by simp
  have past1: "past_fn (phase (promises s1 ! p))" unfolding e by (rule after_fn_past[OF lt])
  have frozen: "count (is_expire p) (trace (exec m s1 evs)) = count (is_expire p) (trace s1)"
    using past_fn_exec[OF lt1 past1, of m evs] by (elim conjE)
  have now: "count (is_expire p) (trace s1) =
      (if p = p \<and> (\<exists>h. expireIn (options m) = Some (ExpireInFn h)) then 1 else 0)"
    unfolding e after_fn_expire 5 by simp
  have 6: "expireIn (options m) = Some (ExpireInFn h) \<longrightarrow>
            count (is_expire p) (trace (exec m s1 evs)) = 1"
    unfolding frozen now by simp
  have 7: "expireIn (options m) = None \<or> expireIn (options m) = Some (ExpireInNumber n) \<longrightarrow>
            count (is_expire p) (trace (exec m s1 evs)) = 0"
    unfolding frozen now by auto
  define s2 where "s2 = step m (FnSettles p (Rejected e)) s"
  have e2: "s2 = advance p (BodySettled (Rejected e)) s"
    unfolding s2_def by (rule fn_fails[OF lt ph])
  have lt2: "p < length (promises s2)" unfolding e2 using lt by simp
  have past2: "past_fn (phase (promises s2 ! p))" unfolding e2 using lt by simp
  have "count (is_expire p) (trace (exec m s2 evs)) = count (is_expire p) (trace s2)"
    using past_fn_exec[OF lt2 past2, of m evs] by (elim conjE)
  also have "\<dots> = 0" unfolding e2 using 5 by simp
  finally have 8: "count (is_expire p) (trace (exec m (step m (FnSettles p (Rejected e)) s) evs)) = 0"
    unfolding s2_def .
  show ?thesis
    by (rule conjI[OF 1 conjI[OF 2 conjI[OF 3 conjI[OF 4 conjI[OF 5 conjI[OF 6 conjI[OF 7 8]]]]]]])
qed

theorem expireIn_called_on_every_result_witness:
  "phase (promises policy_fn ! 0) = AwaitFn \<and>
   expireIn (options m_policy) = Some (ExpireInFn (\<lambda>result a. Some 1000)) \<and>
   nullish (Undefined :: int jsval) \<and>
   take (Suc (length (trace policy_fn))) (trace policy_undefined)
     = trace policy_fn @ [CallExpireIn 0 Undefined a12] \<and>
   trace policy_undefined = trace policy_fn @ [CallExpireIn 0 Undefined a12] \<and>
   phase_of policy_undefined 0 = Some (BodySettled (Fulfilled Undefined)) \<and>
   db policy_undefined = db policy_fn \<and>
   count (is_expire 0) (trace policy_fn) = 0 \<and>
   count (is_expire 0) (trace (exec m_policy policy_undefined [Finally 0, Resolve 0, Call a12])) = 1 \<and>
   count (is_expire 0)
     (trace (exec m_policy (step m_policy (FnSettles 0 (Rejected (Thrown 7))) policy_fn) [Finally 0])) = 0 \<and>
   phase (promises miss_fn ! 0) = AwaitFn \<and>
   expireIn (options m_sums) = None \<and>
   expire_calls m_sums 0 (Val 3) a12 = [] \<and>
   count (is_expire 0)
     (trace (exec m_sums (step m_sums (FnSettles 0 (Fulfilled (Val 3))) miss_fn) [SetSettles 0 None])) = 0"
proof -
  have l: "0 < length (promises policy_fn)" by code_simp
  have ph: "phase (promises policy_fn ! 0) = AwaitFn" by code_simp
  have a: "a12 = args (promises policy_fn ! 0)" by code_simp
  have f: "expireIn (options m_policy) = Some (ExpireInFn (\<lambda>result a. Some 1000))"
    by (simp add: m_policy_def policy_options_def)
  have nl: "nullish (Undefined :: int jsval)" by simp
  have l': "0 < length (promises miss_fn)" by code_simp
  have ph': "phase (promises miss_fn ! 0) = AwaitFn" by code_simp
  have a': "a12 = args (promises miss_fn ! 0)" by code_simp
  have n: "expireIn (options m_sums) = None" by (simp add: m_sums_def no_options_def)
  have r': "miss_fn = exec m_sums (init_state Map.empty) [Call a12, GetSettles 0 None]"
    by (simp add: miss_fn_def miss1_def)
  note t = expireIn_called_on_every_result[OF policy_fn_def l ph a policy_undefined_def,
      where h="\<lambda>result a. Some 1000" and n=0 and evs="[Finally 0, Resolve 0, Call a12]"
        and e="Thrown 7"]
  note t' = expireIn_called_on_every_result[OF policy_fn_def l ph a policy_undefined_def,
      where h="\<lambda>result a. Some 1000" and n=0 and evs="[Finally 0]"
        and e="Thrown 7"]
  note u = expireIn_called_on_every_result[OF r' l' ph' a' refl,
      where h="\<lambda>result a. Some 1000" and n=0 and r="Val 3" and evs="[SetSettles 0 None]"
        and e="Thrown 7"]
  note c1 = t[THEN conjunct1, THEN mp, OF f]
  note c2 = t[THEN conjunct2, THEN conjunct1, THEN mp, OF conjI[OF f nl]]
  note c4 = t[THEN conjunct2, THEN conjunct2, THEN conjunct2, THEN conjunct1, THEN mp, OF nl]
  note r5 = t[THEN conjunct2, THEN conjunct2, THEN conjunct2, THEN conjunct2]
  note c5 = r5[THEN conjunct1]
  note c6 = r5[THEN conjunct2, THEN conjunct1, THEN mp, OF f]
  note c8 = t'[THEN conjunct2, THEN conjunct2, THEN conjunct2, THEN conjunct2,
      THEN conjunct2, THEN conjunct2, THEN conjunct2]
  note c3 = u[THEN conjunct2, THEN conjunct2, THEN conjunct1, THEN mp, OF disjI1[OF n]]
  note c7 = u[THEN conjunct2, THEN conjunct2, THEN conjunct2, THEN conjunct2,
      THEN conjunct2, THEN conjunct2, THEN conjunct1, THEN mp, OF disjI1[OF n]]
  show ?thesis
    by (rule conjI[OF ph conjI[OF f conjI[OF nl conjI[OF c1 conjI[OF c2
          conjI[OF c4[THEN conjunct1] conjI[OF c4[THEN conjunct2] conjI[OF c5 conjI[OF c6
          conjI[OF c8 conjI[OF ph' conjI[OF n conjI[OF c3 c7]]]]]]]]]]]]])
qed

subsection \<open>Failures\<close>



text \<open>
  C7. A promise that waits for \<^verbatim>\<open>fn\<close>, and an \<^verbatim>\<open>fn\<close> that gives a non-nullish result which
  \<^verbatim>\<open>shouldCache\<close> accepts: the body calls the store write; when the write fails with \<open>err\<close>
  the body settles with \<open>err\<close>, the store is unchanged, the promise is rejected with \<open>err\<close>, and
  whatever happens later its outcome is \<open>err\<close>, never the result of \<^verbatim>\<open>fn\<close>.
\<close>

theorem write_failure_hides_result:
  assumes lt: "p < length (promises s)" and ph: "phase (promises s ! p) = AwaitFn"
    and a: "a = args (promises s ! p)"
    and sc: "shouldCache (options m) = None \<or> (\<exists>g. shouldCache (options m) = Some g \<and> g r a)"
    and s2: "s2 = exec m s [FnSettles p (Fulfilled (Val r)), SetSettles p (Some err)]"
  shows "phase_of (step m (FnSettles p (Fulfilled (Val r))) s) p
           = Some (AwaitSet r (expire_value m (Val r) a)) \<and>
         phase_of s2 p = Some (BodySettled (Rejected err)) \<and>
         db s2 = db s \<and>
         phase_of (exec m s2 [Finally p, Resolve p]) p = Some (Settled (Rejected err)) \<and>
         p < length (promises (exec m s2 evs)) \<and>
         outcome (phase (promises (exec m s2 evs) ! p)) = Some (Rejected err)"
proof -
  define s1 where "s1 = step m (FnSettles p (Fulfilled (Val r))) s"
  define e where "e = expire_value m (Val r) a"
  have 1: "s1 = advance p (AwaitSet r e)
       (emit (expire_calls m p (Val r) a @
              (case shouldCache (options m) of None \<Rightarrow> [] | Some g \<Rightarrow> [CallShouldCache p r a]) @
              [CallSet p (key m @ a) r e]) s)"
    unfolding s1_def e_def by (rule fn_cached[OF lt ph a sc])
  have l1: "p < length (promises s1)" unfolding 1 using lt by simp
  have p1: "phase (promises s1 ! p) = AwaitSet r e" unfolding 1 using lt by simp
  have d1: "db s1 = db s" unfolding 1 by simp
  have "s2 = step m (SetSettles p (Some err)) s1" unfolding s2 s1_def by (simp only: exec.simps)
  then have 2: "s2 = advance p (BodySettled (Rejected err)) s1"
    by (simp only: set_fails[OF l1 p1])
  have l2: "p < length (promises s2)" unfolding 2 using l1 by simp
  have p2: "phase (promises s2 ! p) = BodySettled (Rejected err)" unfolding 2 using l1 by simp
  have o2: "outcome (phase (promises s2 ! p)) = Some (Rejected err)" unfolding p2 by simp
  have c1: "phase_of (step m (FnSettles p (Fulfilled (Val r))) s) p = Some (AwaitSet r (expire_value m (Val r) a))"
    using l1 p1 unfolding s1_def e_def phase_of_def by (simp only: if_True)
  have c2: "phase_of s2 p = Some (BodySettled (Rejected err))"
    using l2 p2 unfolding phase_of_def by (simp only: if_True)
  have c3: "db s2 = db s" unfolding 2 using d1 by simp
  have c4: "phase_of (exec m s2 [Finally p, Resolve p]) p = Some (Settled (Rejected err))"
    by (rule settle(1)[OF l2 p2 refl])
  note c5 = outcome_exec[OF l2 o2, of m evs]
  show ?thesis
    by (rule conjI[OF c1 conjI[OF c2 conjI[OF c3 conjI[OF c4 c5]]]])
qed

theorem write_failure_hides_result_witness:
  "phase_of miss_fn 0 = Some AwaitFn \<and>
   phase_of (step m_sums (FnSettles 0 (Fulfilled (Val 3))) miss_fn) 0 = Some (AwaitSet 3 None) \<and>
   phase_of (exec m_sums miss_fn [FnSettles 0 (Fulfilled (Val 3)), SetSettles 0 (Some (Thrown 9))]) 0
     = Some (BodySettled (Rejected (Thrown 9))) \<and>
   db (exec m_sums miss_fn [FnSettles 0 (Fulfilled (Val 3)), SetSettles 0 (Some (Thrown 9))]) = db miss_fn \<and>
   phase_of (exec m_sums (exec m_sums miss_fn [FnSettles 0 (Fulfilled (Val 3)), SetSettles 0 (Some (Thrown 9))])
      [Finally 0, Resolve 0]) 0 = Some (Settled (Rejected (Thrown 9)))"
proof -
  have l: "0 < length (promises miss_fn)" by code_simp
  have ph: "phase (promises miss_fn ! 0) = AwaitFn" by code_simp
  have a: "a12 = args (promises miss_fn ! 0)" by code_simp
  have sc: "shouldCache (options m_sums) = None \<or>
      (\<exists>g. shouldCache (options m_sums) = Some g \<and> g 3 a12)"
    by (simp add: m_sums_def no_options_def)
  have e: "expire_value m_sums (Val 3) a12 = None" by (simp add: expire_value_def m_sums_def no_options_def)
  have h: "phase_of miss_fn 0 = Some AwaitFn"
    using l ph unfolding phase_of_def by (simp only: if_True)
  note t = write_failure_hides_result[OF l ph a sc refl, where err="Thrown 9" and evs="[]", unfolded e]
  show ?thesis
    by (rule conjI[OF h conjI[OF t[THEN conjunct1] conjI[OF t[THEN conjunct2, THEN conjunct1]
        conjI[OF t[THEN conjunct2, THEN conjunct2, THEN conjunct1]
              t[THEN conjunct2, THEN conjunct2, THEN conjunct2, THEN conjunct1]]]]])
qed

subsection \<open>The decisions of the body, and the store\<close>

text \<open>
  C4. For a promise of a reachable state. When its store read gives a non-nullish value
  and \<^verbatim>\<open>shouldRecalculate\<close> is absent or answers false, the body settles with that value; the
  promise then settles with it, the store is as it was, and the promise has called neither
  \<^verbatim>\<open>fn\<close> nor the store write. When \<^verbatim>\<open>shouldRecalculate\<close> answers true the body calls \<^verbatim>\<open>fn\<close>. When
  \<^verbatim>\<open>fn\<close> gives a non-nullish result and \<^verbatim>\<open>shouldCache\<close> is absent or answers true, the body calls
  the store write with the key made of the namespace followed by the arguments, the
  result, and the expiration; whatever happens later the promise has called the write
  exactly once; and when the write succeeds the store is the old one with that write
  applied: with the default methods it is the old store with the entry of that key set to
  the result and the expiration, and with configured methods it is what the configured
  \<^verbatim>\<open>set\<close> makes of the old store, that key, the result and the expiration. The read is the
  value of the entry, \<^verbatim>\<open>null\<close> when there is none, with the default methods, and what the
  configured \<^verbatim>\<open>get\<close> gives otherwise. The expiration is absent, the configured number, or what
  the configured function gives for the result and the arguments.
\<close>

theorem hit_and_write_decisions:
  assumes reach: "s = exec m (init_state d) evs0"
    and lt: "p < length (promises s)"
    and a: "a = args (promises s ! p)"
  shows "(phase (promises s ! p) = AwaitGet \<and> store_get m (db s) (key m @ a) = Val c \<and>
          (shouldRecalculate (options m) = None \<or>
           (\<exists>f. shouldRecalculate (options m) = Some f \<and> \<not> f c a)) \<longrightarrow>
            step m (GetSettles p None) s =
              advance p (BodySettled (Fulfilled (Val c)))
                (emit (case shouldRecalculate (options m) of None \<Rightarrow> []
                       | Some f \<Rightarrow> [CallShouldRecalculate p c a]) s) \<and>
            phase_of (exec m s [GetSettles p None, Finally p, Resolve p]) p
              = Some (Settled (Fulfilled (Val c))) \<and>
            db (exec m s [GetSettles p None, Finally p, Resolve p]) = db s \<and>
            count (is_fn p) (trace (exec m s [GetSettles p None, Finally p, Resolve p])) = 0 \<and>
            count (is_set p) (trace (exec m s [GetSettles p None, Finally p, Resolve p])) = 0) \<and>
         (phase (promises s ! p) = AwaitGet \<and> store_get m (db s) (key m @ a) = Val c \<and>
          shouldRecalculate (options m) = Some f \<and> f c a \<longrightarrow>
            step m (GetSettles p None) s =
              advance p AwaitFn (emit [CallShouldRecalculate p c a, CallFn p a] s)) \<and>
         (phase (promises s ! p) = AwaitFn \<and>
          (shouldCache (options m) = None \<or> (\<exists>g. shouldCache (options m) = Some g \<and> g r a)) \<longrightarrow>
            step m (FnSettles p (Fulfilled (Val r))) s =
              advance p (AwaitSet r (expire_value m (Val r) a))
                (emit (expire_calls m p (Val r) a @
                       (case shouldCache (options m) of None \<Rightarrow> []
                        | Some g \<Rightarrow> [CallShouldCache p r a]) @
                       [CallSet p (key m @ a) r (expire_value m (Val r) a)]) s) \<and>
            count (is_set p) (trace (exec m s (FnSettles p (Fulfilled (Val r)) # evs))) = 1 \<and>
            db (exec m s [FnSettles p (Fulfilled (Val r)), SetSettles p None])
              = store_set m (db s) (key m @ a) r (expire_value m (Val r) a)) \<and>
         (kv (options m) = None \<longrightarrow> store_set m dd k r e = dd(k \<mapsto> (Val r, e))) \<and>
         (expireIn (options m) = None \<longrightarrow> expire_value m x a = None) \<and>
         (expireIn (options m) = Some (ExpireInNumber n) \<longrightarrow> expire_value m x a = Some n) \<and>
         (expireIn (options m) = Some (ExpireInFn h) \<longrightarrow> expire_value m x a = h x a) \<and>
         (phase (promises s ! p) = AwaitFn \<and> kv (options m) = None \<and>
          (shouldCache (options m) = None \<or> (\<exists>g. shouldCache (options m) = Some g \<and> g r a)) \<longrightarrow>
            db (exec m s [FnSettles p (Fulfilled (Val r)), SetSettles p None])
              = (db s)(key m @ a \<mapsto> (Val r, expire_value m (Val r) a))) \<and>
         (phase (promises s ! p) = AwaitFn \<and> kv (options m) = Some ms \<and>
          (shouldCache (options m) = None \<or> (\<exists>g. shouldCache (options m) = Some g \<and> g r a)) \<longrightarrow>
            db (exec m s [FnSettles p (Fulfilled (Val r)), SetSettles p None])
              = kv_set ms (db s) (key m @ a) r (expire_value m (Val r) a)) \<and>
         (kv (options m) = None \<longrightarrow>
            store_get m dd k = (case dd k of None \<Rightarrow> Null | Some (v, t) \<Rightarrow> v)) \<and>
         (kv (options m) = Some ms \<longrightarrow>
            store_get m dd k = kv_get ms dd k \<and> store_set m dd k r e = kv_set ms dd k r e)"
proof -
  have 1: "phase (promises s ! p) = AwaitGet \<and> store_get m (db s) (key m @ a) = Val c \<and>
          (shouldRecalculate (options m) = None \<or>
           (\<exists>f. shouldRecalculate (options m) = Some f \<and> \<not> f c a)) \<longrightarrow>
            step m (GetSettles p None) s =
              advance p (BodySettled (Fulfilled (Val c)))
                (emit (case shouldRecalculate (options m) of None \<Rightarrow> []
                       | Some f \<Rightarrow> [CallShouldRecalculate p c a]) s) \<and>
            phase_of (exec m s [GetSettles p None, Finally p, Resolve p]) p
              = Some (Settled (Fulfilled (Val c))) \<and>
            db (exec m s [GetSettles p None, Finally p, Resolve p]) = db s \<and>
            count (is_fn p) (trace (exec m s [GetSettles p None, Finally p, Resolve p])) = 0 \<and>
            count (is_set p) (trace (exec m s [GetSettles p None, Finally p, Resolve p])) = 0"
  proof (intro impI, elim conjE)
    assume ph: "phase (promises s ! p) = AwaitGet"
      and hit: "store_get m (db s) (key m @ a) = Val c"
      and no: "shouldRecalculate (options m) = None \<or>
           (\<exists>f. shouldRecalculate (options m) = Some f \<and> \<not> f c a)"
    define es where "es = (case shouldRecalculate (options m) of None \<Rightarrow> []
                       | Some f \<Rightarrow> [CallShouldRecalculate p c a])"
    define s1 where "s1 = step m (GetSettles p None) s"
    have e: "s1 = advance p (BodySettled (Fulfilled (Val c))) (emit es s)"
      unfolding s1_def es_def by (rule get_hit_kept[OF lt ph a hit no])
    have ces: "count (is_fn p) es = 0" "count (is_set p) es = 0"
      unfolding es_def by (simp_all split: option.splits)
    have l1: "p < length (promises s1)" unfolding e using lt by simp
    have p1: "phase (promises s1 ! p) = BodySettled (Fulfilled (Val c))" unfolding e using lt by simp
    define s3 where "s3 = exec m s [GetSettles p None, Finally p, Resolve p]"
    have s3: "s3 = exec m s1 [Finally p, Resolve p]" unfolding s3_def s1_def by (simp only: exec.simps)
    note st = settle[OF l1 p1 s3]
    from counts_run(2)[OF lt[unfolded reach], folded reach] ph
    have z: "count (is_fn p) (trace s) = 0" "count (is_set p) (trace s) = 0" by simp_all
    have t1: "trace s1 = trace s @ es" unfolding e by simp
    have "step m (GetSettles p None) s =
              advance p (BodySettled (Fulfilled (Val c))) (emit es s)" using e unfolding s1_def .
    moreover have "phase_of s3 p = Some (Settled (Fulfilled (Val c)))" by (rule st(1))
    moreover have "db s3 = db s" using st(2) unfolding e by simp
    moreover have "count (is_fn p) (trace s3) = 0" unfolding st(5) t1 using z ces by simp
    moreover have "count (is_set p) (trace s3) = 0" unfolding st(5) t1 using z ces by simp
    ultimately show "step m (GetSettles p None) s =
              advance p (BodySettled (Fulfilled (Val c)))
                (emit (case shouldRecalculate (options m) of None \<Rightarrow> []
                       | Some f \<Rightarrow> [CallShouldRecalculate p c a]) s) \<and>
            phase_of (exec m s [GetSettles p None, Finally p, Resolve p]) p
              = Some (Settled (Fulfilled (Val c))) \<and>
            db (exec m s [GetSettles p None, Finally p, Resolve p]) = db s \<and>
            count (is_fn p) (trace (exec m s [GetSettles p None, Finally p, Resolve p])) = 0 \<and>
            count (is_set p) (trace (exec m s [GetSettles p None, Finally p, Resolve p])) = 0"
      unfolding es_def s3_def by blast
  qed
  have 2: "phase (promises s ! p) = AwaitGet \<and> store_get m (db s) (key m @ a) = Val c \<and>
          shouldRecalculate (options m) = Some f \<and> f c a \<longrightarrow>
            step m (GetSettles p None) s =
              advance p AwaitFn (emit [CallShouldRecalculate p c a, CallFn p a] s)"
    using get_hit_recalculated[OF lt _ a] by blast
  have 3: "phase (promises s ! p) = AwaitFn \<and>
          (shouldCache (options m) = None \<or> (\<exists>g. shouldCache (options m) = Some g \<and> g r a)) \<longrightarrow>
            step m (FnSettles p (Fulfilled (Val r))) s =
              advance p (AwaitSet r (expire_value m (Val r) a))
                (emit (expire_calls m p (Val r) a @
                       (case shouldCache (options m) of None \<Rightarrow> []
                        | Some g \<Rightarrow> [CallShouldCache p r a]) @
                       [CallSet p (key m @ a) r (expire_value m (Val r) a)]) s) \<and>
            count (is_set p) (trace (exec m s (FnSettles p (Fulfilled (Val r)) # evs))) = 1 \<and>
            db (exec m s [FnSettles p (Fulfilled (Val r)), SetSettles p None])
              = store_set m (db s) (key m @ a) r (expire_value m (Val r) a)"
  proof (intro impI, elim conjE)
    assume ph: "phase (promises s ! p) = AwaitFn"
      and sc: "shouldCache (options m) = None \<or> (\<exists>g. shouldCache (options m) = Some g \<and> g r a)"
    define e where "e = expire_value m (Val r) a"
    define es where "es = expire_calls m p (Val r) a @
                       (case shouldCache (options m) of None \<Rightarrow> []
                        | Some g \<Rightarrow> [CallShouldCache p r a]) @
                       [CallSet p (key m @ a) r e]"
    define s1 where "s1 = step m (FnSettles p (Fulfilled (Val r))) s"
    have eq: "s1 = advance p (AwaitSet r e) (emit es s)"
      unfolding s1_def es_def e_def by (rule fn_cached[OF lt ph a sc])
    have l1: "p < length (promises s1)" unfolding eq using lt by simp
    have p1: "phase (promises s1 ! p) = AwaitSet r e" unfolding eq using lt by simp
    have a1: "a = args (promises s1 ! p)" unfolding eq using a by simp
    have run1: "s1 = exec m (init_state d) (evs0 @ [FnSettles p (Fulfilled (Val r))])"
      unfolding s1_def reach by (simp add: exec_append)
    from counts_run(2)[OF l1[unfolded run1], folded run1] p1
    have one: "count (is_set p) (trace s1) = 1" by simp
    define s' where "s' = exec m s1 evs"
    have run': "s' = exec m (init_state d) (evs0 @ [FnSettles p (Fulfilled (Val r))] @ evs)"
      unfolding s'_def s1_def reach by (simp add: exec_append)
    have l': "p < length (promises s')" using exec_length[of s1 m evs] l1 unfolding s'_def by simp
    from calls_ok_le[OF counts_run(2)[OF l'[unfolded run'], folded run']]
    have "count (is_set p) (trace s') \<le> 1" by simp
    moreover have "count (is_set p) (trace s1) \<le> count (is_set p) (trace s')"
      unfolding s'_def by (rule count_exec_mono)
    ultimately have c2: "count (is_set p) (trace s') = 1" using one by simp
    have "exec m s [FnSettles p (Fulfilled (Val r)), SetSettles p None]
        = step m (SetSettles p None) s1" unfolding s1_def by (simp only: exec.simps)
    also have "\<dots> = advance p (BodySettled (Fulfilled (Val r)))
        (s1\<lparr>db := store_set m (db s1) (key m @ a) r e\<rparr>)"
      by (rule set_done[OF l1 p1 a1])
    finally have "db (exec m s [FnSettles p (Fulfilled (Val r)), SetSettles p None])
        = store_set m (db s1) (key m @ a) r e" by simp
    then have c3: "db (exec m s [FnSettles p (Fulfilled (Val r)), SetSettles p None])
        = store_set m (db s) (key m @ a) r e" unfolding eq by simp
    have c2': "count (is_set p) (trace (exec m s (FnSettles p (Fulfilled (Val r)) # evs))) = 1"
      using c2 unfolding s'_def s1_def by (simp only: exec.simps)
    have c1: "step m (FnSettles p (Fulfilled (Val r))) s = advance p (AwaitSet r e) (emit es s)"
      using eq unfolding s1_def .
    from c1 c2' c3 show "step m (FnSettles p (Fulfilled (Val r))) s =
              advance p (AwaitSet r (expire_value m (Val r) a))
                (emit (expire_calls m p (Val r) a @
                       (case shouldCache (options m) of None \<Rightarrow> []
                        | Some g \<Rightarrow> [CallShouldCache p r a]) @
                       [CallSet p (key m @ a) r (expire_value m (Val r) a)]) s) \<and>
            count (is_set p) (trace (exec m s (FnSettles p (Fulfilled (Val r)) # evs))) = 1 \<and>
            db (exec m s [FnSettles p (Fulfilled (Val r)), SetSettles p None])
              = store_set m (db s) (key m @ a) r (expire_value m (Val r) a)"
      unfolding es_def e_def by blast
  qed
  have 4: "kv (options m) = None \<longrightarrow> store_set m dd k r e = dd(k \<mapsto> (Val r, e))"
    by (simp add: store_set_def db_set_def)
  have 5: "expireIn (options m) = None \<longrightarrow> expire_value m x a = None"
    by (simp add: expire_value_def)
  have 6: "expireIn (options m) = Some (ExpireInNumber n) \<longrightarrow> expire_value m x a = Some n"
    by (simp add: expire_value_def)
  have 7: "expireIn (options m) = Some (ExpireInFn h) \<longrightarrow> expire_value m x a = h x a"
    by (simp add: expire_value_def)
  have 8: "phase (promises s ! p) = AwaitFn \<and> kv (options m) = None \<and>
          (shouldCache (options m) = None \<or> (\<exists>g. shouldCache (options m) = Some g \<and> g r a)) \<longrightarrow>
            db (exec m s [FnSettles p (Fulfilled (Val r)), SetSettles p None])
              = (db s)(key m @ a \<mapsto> (Val r, expire_value m (Val r) a))"
  proof (intro impI, elim conjE)
    assume ph: "phase (promises s ! p) = AwaitFn" and k: "kv (options m) = None"
      and sc: "shouldCache (options m) = None \<or> (\<exists>g. shouldCache (options m) = Some g \<and> g r a)"
    note w = 3[THEN mp, OF conjI[OF ph sc], THEN conjunct2, THEN conjunct2]
    have "store_set m (db s) (key m @ a) r (expire_value m (Val r) a)
        = (db s)(key m @ a \<mapsto> (Val r, expire_value m (Val r) a))"
      using k by (simp add: store_set_def db_set_def)
    with w show "db (exec m s [FnSettles p (Fulfilled (Val r)), SetSettles p None])
              = (db s)(key m @ a \<mapsto> (Val r, expire_value m (Val r) a))"
      by (rule trans)
  qed
  have 9: "phase (promises s ! p) = AwaitFn \<and> kv (options m) = Some ms \<and>
          (shouldCache (options m) = None \<or> (\<exists>g. shouldCache (options m) = Some g \<and> g r a)) \<longrightarrow>
            db (exec m s [FnSettles p (Fulfilled (Val r)), SetSettles p None])
              = kv_set ms (db s) (key m @ a) r (expire_value m (Val r) a)"
  proof (intro impI, elim conjE)
    assume ph: "phase (promises s ! p) = AwaitFn" and k: "kv (options m) = Some ms"
      and sc: "shouldCache (options m) = None \<or> (\<exists>g. shouldCache (options m) = Some g \<and> g r a)"
    note w = 3[THEN mp, OF conjI[OF ph sc], THEN conjunct2, THEN conjunct2]
    have "store_set m (db s) (key m @ a) r (expire_value m (Val r) a)
        = kv_set ms (db s) (key m @ a) r (expire_value m (Val r) a)"
      using k by (simp add: store_set_def)
    with w show "db (exec m s [FnSettles p (Fulfilled (Val r)), SetSettles p None])
              = kv_set ms (db s) (key m @ a) r (expire_value m (Val r) a)"
      by (rule trans)
  qed
  have 10: "kv (options m) = None \<longrightarrow>
            store_get m dd k = (case dd k of None \<Rightarrow> Null | Some (v, t) \<Rightarrow> v)"
    by (simp add: store_get_def db_get_def)
  have 11: "kv (options m) = Some ms \<longrightarrow>
            store_get m dd k = kv_get ms dd k \<and> store_set m dd k r e = kv_set ms dd k r e"
    by (simp add: store_get_def store_set_def)
  show ?thesis
    by (rule conjI[OF 1 conjI[OF 2 conjI[OF 3 conjI[OF 4 conjI[OF 5 conjI[OF 6 conjI[OF 7
          conjI[OF 8 conjI[OF 9 conjI[OF 10 11]]]]]]]]]])
qed

theorem hit_and_write_decisions_witness:
  "phase (promises hit1 ! 0) = AwaitGet \<and>
   store_get m_sums (db hit1) (key m_sums @ a12) = Val 3 \<and>
   shouldRecalculate (options m_sums) = None \<and>
   phase_of hit_done 0 = Some (Settled (Fulfilled (Val 3))) \<and>
   db hit_done = db hit1 \<and>
   count (is_fn 0) (trace hit_done) = 0 \<and>
   count (is_set 0) (trace hit_done) = 0 \<and>
   phase (promises stale1 ! 0) = AwaitGet \<and>
   store_get m_policy (db stale1) (key m_policy @ a12) = Val (- 1) \<and>
   step m_policy (GetSettles 0 None) stale1 =
     advance 0 AwaitFn (emit [CallShouldRecalculate 0 (- 1) a12, CallFn 0 a12] stale1) \<and>
   phase (promises miss_fn ! 0) = AwaitFn \<and>
   shouldCache (options m_sums) = None \<and>
   count (is_set 0) (trace (exec m_sums miss_fn
      [FnSettles 0 (Fulfilled (Val 3)), SetSettles 0 None, Finally 0, Resolve 0])) = 1 \<and>
   db (exec m_sums miss_fn [FnSettles 0 (Fulfilled (Val 3)), SetSettles 0 None])
     = store_set m_sums (db miss_fn) (key m_sums @ a12) 3 (expire_value m_sums (Val 3) a12) \<and>
   store_set m_sums (db miss_fn) (key m_sums @ a12) 3 None
     = (db miss_fn)(key m_sums @ a12 \<mapsto> (Val 3, None)) \<and>
   expire_value m_sums (Val 3) a12 = None \<and>
   kv (options m_sums) = None \<and>
   db (exec m_sums miss_fn [FnSettles 0 (Fulfilled (Val 3)), SetSettles 0 None])
     = (db miss_fn)(key m_sums @ a12 \<mapsto> (Val 3, expire_value m_sums (Val 3) a12)) \<and>
   store_get m_sums db_hit [KString ''sums'', num1, num2]
     = (case db_hit [KString ''sums'', num1, num2] of None \<Rightarrow> Null | Some (v, t) \<Rightarrow> v) \<and>
   phase (promises custom_fn ! 0) = AwaitFn \<and>
   kv (options m_custom) = Some custom_kv \<and>
   shouldCache (options m_custom) = None \<and>
   expireIn (options m_custom) = Some (ExpireInNumber 500) \<and>
   expire_value m_custom (Val 3) a12 = Some 500 \<and>
   db (exec m_custom custom_fn [FnSettles 0 (Fulfilled (Val 3)), SetSettles 0 None])
     = kv_set custom_kv (db custom_fn) (key m_custom @ a12) 3 (expire_value m_custom (Val 3) a12) \<and>
   count (is_set 0) (trace (exec m_custom custom_fn
      [FnSettles 0 (Fulfilled (Val 3)), SetSettles 0 None, Finally 0, Resolve 0])) = 1 \<and>
   store_get m_custom (db custom_fn) (key m_custom @ a12)
     = kv_get custom_kv (db custom_fn) (key m_custom @ a12) \<and>
   store_set m_custom (db custom_fn) (key m_custom @ a12) 3 (Some 500)
     = kv_set custom_kv (db custom_fn) (key m_custom @ a12) 3 (Some 500) \<and>
   kv_set custom_kv (db custom_fn) (key m_custom @ a12) 3 (Some 500) [KString ''custom'', num1, num2]
     = Some (Val 3, None)"
proof -
  have l1: "0 < length (promises hit1)" by code_simp
  have a1: "a12 = args (promises hit1 ! 0)" by code_simp
  have g1: "phase (promises hit1 ! 0) = AwaitGet" by code_simp
  have v1: "store_get m_sums (db hit1) (key m_sums @ a12) = Val 3" by code_simp
  have n1: "shouldRecalculate (options m_sums) = None" by (simp add: m_sums_def no_options_def)
  note t = hit_and_write_decisions[OF hit1_def l1 a1, where c=3]
  note c1 = t[THEN conjunct1, THEN mp, OF conjI[OF g1 conjI[OF v1 disjI1[OF n1]]],
      folded hit_done_def]
  have l2: "0 < length (promises stale1)" by code_simp
  have a2: "a12 = args (promises stale1 ! 0)" by code_simp
  have g2: "phase (promises stale1 ! 0) = AwaitGet" by code_simp
  have v2: "store_get m_policy (db stale1) (key m_policy @ a12) = Val (- 1)" by code_simp
  have f2: "shouldRecalculate (options m_policy) = Some (\<lambda>result a. result < 0)"
    by (simp add: m_policy_def policy_options_def)
  have neg: "(- 1 :: int) < 0" by simp
  note u = hit_and_write_decisions[OF stale1_def l2 a2, where c="- 1"
      and f="\<lambda>result a. result < 0"]
  note c2 = u[THEN conjunct2, THEN conjunct1, THEN mp, OF conjI[OF g2 conjI[OF v2 conjI[OF f2 neg]]]]
  have r3: "miss_fn = exec m_sums (init_state Map.empty) [Call a12, GetSettles 0 None]"
    by (simp only: miss_fn_def miss1_def exec.simps)
  have l3: "0 < length (promises miss_fn)" by code_simp
  have a3: "a12 = args (promises miss_fn ! 0)" by code_simp
  have g3: "phase (promises miss_fn ! 0) = AwaitFn" by code_simp
  have n3: "shouldCache (options m_sums) = None" by (simp add: m_sums_def no_options_def)
  have k3: "kv (options m_sums) = None" by (simp add: m_sums_def no_options_def)
  have e3: "expireIn (options m_sums) = None" by (simp add: m_sums_def no_options_def)
  note w = hit_and_write_decisions[OF r3 l3 a3, where r=3
      and evs="[SetSettles 0 None, Finally 0, Resolve 0]" and dd="db miss_fn"
      and k="key m_sums @ a12" and e=None and x="Val 3"]
  note c3 = w[THEN conjunct2, THEN conjunct2, THEN conjunct1, THEN mp, OF conjI[OF g3 disjI1[OF n3]]]
  note c4 = w[THEN conjunct2, THEN conjunct2, THEN conjunct2, THEN conjunct1, THEN mp, OF k3]
  note c5 = w[THEN conjunct2, THEN conjunct2, THEN conjunct2, THEN conjunct2, THEN conjunct1,
      THEN mp, OF e3]
  note tl = conjunct2[THEN conjunct2, THEN conjunct2, THEN conjunct2, THEN conjunct2,
      THEN conjunct2, THEN conjunct2]
  note c8 = w[THEN tl, THEN conjunct1, THEN mp, OF conjI[OF g3 conjI[OF k3 disjI1[OF n3]]]]
  note w' = hit_and_write_decisions[OF r3 l3 a3, where dd=db_hit
      and k="[KString ''sums'', num1, num2]"]
  note c10 = w'[THEN tl, THEN conjunct2, THEN conjunct2, THEN conjunct1, THEN mp, OF k3]
  have l4: "0 < length (promises custom_fn)" by code_simp
  have a4: "a12 = args (promises custom_fn ! 0)" by code_simp
  have g4: "phase (promises custom_fn ! 0) = AwaitFn" by code_simp
  have k4: "kv (options m_custom) = Some custom_kv" by (simp add: m_custom_def)
  have n4: "shouldCache (options m_custom) = None" by (simp add: m_custom_def)
  have e4: "expireIn (options m_custom) = Some (ExpireInNumber 500)" by (simp add: m_custom_def)
  note y = hit_and_write_decisions[OF custom_fn_def l4 a4, where r=3 and ms=custom_kv
      and evs="[SetSettles 0 None, Finally 0, Resolve 0]" and dd="db custom_fn"
      and k="key m_custom @ a12" and e="Some 500" and x="Val 3" and n=500]
  note d3 = y[THEN conjunct2, THEN conjunct2, THEN conjunct1, THEN mp, OF conjI[OF g4 disjI1[OF n4]]]
  note d6 = y[THEN conjunct2, THEN conjunct2, THEN conjunct2, THEN conjunct2, THEN conjunct2,
      THEN conjunct1, THEN mp, OF e4]
  note d9 = y[THEN tl, THEN conjunct2, THEN conjunct1, THEN mp,
      OF conjI[OF g4 conjI[OF k4 disjI1[OF n4]]]]
  note d11 = y[THEN tl, THEN conjunct2, THEN conjunct2, THEN conjunct2, THEN mp, OF k4]
  have v4: "kv_set custom_kv (db custom_fn) (key m_custom @ a12) 3 (Some 500)
      [KString ''custom'', num1, num2] = Some (Val 3, None)" by code_simp
  show ?thesis
    by (rule conjI[OF g1 conjI[OF v1 conjI[OF n1
        conjI[OF c1[THEN conjunct2, THEN conjunct1]
        conjI[OF c1[THEN conjunct2, THEN conjunct2, THEN conjunct1]
        conjI[OF c1[THEN conjunct2, THEN conjunct2, THEN conjunct2, THEN conjunct1]
        conjI[OF c1[THEN conjunct2, THEN conjunct2, THEN conjunct2, THEN conjunct2]
        conjI[OF g2 conjI[OF v2 conjI[OF c2 conjI[OF g3 conjI[OF n3
        conjI[OF c3[THEN conjunct2, THEN conjunct1]
        conjI[OF c3[THEN conjunct2, THEN conjunct2] conjI[OF c4 conjI[OF c5
        conjI[OF k3 conjI[OF c8 conjI[OF c10 conjI[OF g4 conjI[OF k4 conjI[OF n4 conjI[OF e4
        conjI[OF d6 conjI[OF d9 conjI[OF d3[THEN conjunct2, THEN conjunct1]
        conjI[OF d11[THEN conjunct1] conjI[OF d11[THEN conjunct2] v4]]]]]]]]]]]]]]]]]]]]]]]]]]]])
qed

text \<open>
  C10. Claim: a stale value that survives a forced recomputation (the fresh result was
  nullish or \<^verbatim>\<open>shouldCache\<close> refused it) is served as a hit by the next call with the same
  arguments. The value does stay in the store and the next call does read it, but it is
  then judged by \<^verbatim>\<open>shouldRecalculate\<close> again: with the policy that recalculates a negative
  value and the stale value \<open>-1\<close>, the next call is given a new promise that calls \<^verbatim>\<open>fn\<close> again
  and settles with the fresh \<^verbatim>\<open>null\<close>, not with \<open>-1\<close>.
\<close>

theorem stale_value_not_served_counterexample:
  "store_get m_policy db_stale (key m_policy @ a12) = Val (- 1) \<and>
   phase_of stale_fn 0 = Some AwaitFn \<and>
   phase_of stale_done 0 = Some (Settled (Fulfilled Null)) \<and>
   store_get m_policy (db stale_done) (key m_policy @ a12) = Val (- 1) \<and>
   promise_of (call m_policy stale_done a12) = Inr 1 \<and>
   count (is_fn 1) (trace stale_next) = 1 \<and>
   phase_of stale_next 1 = Some (Settled (Fulfilled Null))"
proof -
  have 1: "store_get m_policy db_stale (key m_policy @ a12) = Val (- 1)" by code_simp
  have 2: "phase_of stale_fn 0 = Some AwaitFn" by code_simp
  have 3: "phase_of stale_done 0 = Some (Settled (Fulfilled Null))" by code_simp
  have 4: "store_get m_policy (db stale_done) (key m_policy @ a12) = Val (- 1)" by code_simp
  have 5: "promise_of (call m_policy stale_done a12) = Inr 1" by code_simp
  have 6: "count (is_fn 1) (trace stale_next) = 1" by code_simp
  have 7: "phase_of stale_next 1 = Some (Settled (Fulfilled Null))" by code_simp
  show ?thesis by (rule conjI[OF 1 conjI[OF 2 conjI[OF 3 conjI[OF 4 conjI[OF 5 conjI[OF 6 7]]]]]])
qed


text \<open>
  C10, as the code has it. A step changes the store only when the write of a promise that
  waits for it succeeds, and then by that one write, whose value is the non-nullish result
  that \<^verbatim>\<open>fn\<close> has just given to that promise; with the default methods no key ever leaves
  the store; a promise calls the write at most once. And for a first call in a reachable
  state that finds a stale value which \<^verbatim>\<open>shouldRecalculate\<close> rejects, and whose fresh result
  is nullish or refused by \<^verbatim>\<open>shouldCache\<close>: nothing is written, the store is as it was and
  still gives the stale value; the next call with the same arguments is given a new
  promise, reads the stale value and asks \<^verbatim>\<open>shouldRecalculate\<close> about it, which answers as
  before, so \<^verbatim>\<open>fn\<close> is called again.
\<close>

theorem store_is_only_ever_set:
  assumes reach: "s0 = exec m (init_state d) evs0"
    and key: "stringifyKey a = Inr ck" and fresh: "cache s0 ck = None"
    and p0: "p0 = length (promises s0)"
    and s2: "s2 = exec m s0 [Call a, GetSettles p0 None]"
    and stale: "store_get m (db s0) (key m @ a) = Val c"
    and rc: "shouldRecalculate (options m) = Some f" and fc: "f c a"
    and nw: "nullish r \<or> (\<exists>v g. r = Val v \<and> shouldCache (options m) = Some g \<and> \<not> g v a)"
    and s3: "s3 = step m (FnSettles p0 (Fulfilled r)) s2"
    and s5: "s5 = exec m s3 [Finally p0, Resolve p0]"
    and s7: "s7 = exec m s5 [Call a, GetSettles (Suc p0) None]"
  shows "(db (step m ev t) = db t \<or>
          (\<exists>q v e. ev = SetSettles q None \<and> phase_of t q = Some (AwaitSet v e) \<and>
             db (step m ev t) = store_set m (db t) (key m @ args (promises t ! q)) v e)) \<and>
         (phase_of (step m ev t) q = Some (AwaitSet v e) \<and> phase_of t q \<noteq> Some (AwaitSet v e) \<longrightarrow>
            ev = FnSettles q (Fulfilled (Val v))) \<and>
         (kv (options m) = None \<longrightarrow> dom (db t) \<subseteq> dom (db (step m ev t))) \<and>
         count (is_set q) (trace (exec m s0 evs)) \<le> 1 \<and>
         phase_of s2 p0 = Some AwaitFn \<and>
         count (is_set p0) (trace s5) = 0 \<and>
         db s5 = db s0 \<and>
         store_get m (db s5) (key m @ a) = Val c \<and>
         phase_of s5 p0 = Some (Settled (Fulfilled r)) \<and>
         promise_of (call m s5 a) = Inr (Suc p0) \<and>
         s7 = advance (Suc p0) AwaitFn
                (emit [CallShouldRecalculate (Suc p0) c a, CallFn (Suc p0) a] (step m (Call a) s5))"
proof -
  have 1: "db (step m ev t) = db t \<or>
          (\<exists>q v e. ev = SetSettles q None \<and> phase_of t q = Some (AwaitSet v e) \<and>
             db (step m ev t) = store_set m (db t) (key m @ args (promises t ! q)) v e)"
    by (rule db_step)
  have 2: "phase_of (step m ev t) q = Some (AwaitSet v e) \<and> phase_of t q \<noteq> Some (AwaitSet v e) \<longrightarrow>
            ev = FnSettles q (Fulfilled (Val v))"
    using await_set_origin[of m ev t q v e] by blast
  have 3: "kv (options m) = None \<longrightarrow> dom (db t) \<subseteq> dom (db (step m ev t))"
    using db_step_dom[of m t ev] by blast
  have 4: "count (is_set q) (trace (exec m s0 evs)) \<le> 1"
  proof -
    define s where "s = exec m (init_state d) (evs0 @ evs)"
    have e: "exec m s0 evs = s" unfolding s_def reach by (simp add: exec_append)
    have "counts_ok s q" unfolding s_def by (rule counts_ok_exec[OF init_invs(3)])
    then have "count (is_set q) (trace s) \<le> 1"
      unfolding counts_ok_def using calls_ok_le[of "phase (promises s ! q)"]
      by (cases "q < length (promises s)") auto
    then show ?thesis unfolding e .
  qed
  note fr = first_read[OF key fresh p0 s2]
  have e2: "s2 = advance p0 AwaitFn
      (emit [CallShouldRecalculate p0 c a, CallFn p0 a] (step m (Call a) s0))"
    unfolding fr(1) stale using rc fc by (simp add: after_get_def)
  have l2: "p0 < length (promises s2)" by (rule fr(3))
  have f2: "phase (promises s2 ! p0) = AwaitFn" unfolding e2 using fr(2) by simp
  have 5: "phase_of s2 p0 = Some AwaitFn" using l2 f2 by (simp add: phase_of_def)
  have e3: "\<exists>es. s3 = advance p0 (BodySettled (Fulfilled r)) (emit es s2)"
  proof (cases "nullish r")
    case True
    from fn_nullish[OF l2 f2 fr(4)[symmetric] True] show ?thesis unfolding s3 by blast
  next
    case False
    with nw obtain v g where r: "r = Val v" and g: "shouldCache (options m) = Some g" "\<not> g v a"
      by blast
    from fn_not_cached[OF l2 f2 fr(4)[symmetric] g] show ?thesis unfolding s3 r by blast
  qed
  then obtain es where e3': "s3 = advance p0 (BodySettled (Fulfilled r)) (emit es s2)" by blast
  have nw3: "phase_of s3 p0 = Some (BodySettled (Fulfilled r))"
    unfolding e3' using l2 by (simp add: phase_of_def)
  note ag = again[OF reach key fresh p0 s2 5 s3 nw3 s5 s7]
  have 8: "store_get m (db s5) (key m @ a) = Val c" unfolding ag(2) by (rule stale)
  have "promise_of (call m s5 a) = Inr (length (promises s5))"
    by (simp add: call_fresh[OF key ag(3)] promise_of_def)
  with ag(5) have l5: "Suc p0 = length (promises s5)" by simp
  note fr' = first_read[OF key ag(3) l5 s7]
  have 11: "s7 = advance (Suc p0) AwaitFn
                (emit [CallShouldRecalculate (Suc p0) c a, CallFn (Suc p0) a] (step m (Call a) s5))"
    unfolding fr'(1) 8 using rc fc by (simp add: after_get_def)
  show ?thesis
    by (rule conjI[OF 1 conjI[OF 2 conjI[OF 3 conjI[OF 4 conjI[OF 5 conjI[OF ag(4) conjI[OF ag(2)
          conjI[OF 8 conjI[OF ag(1) conjI[OF ag(5) 11]]]]]]]]]])
qed

theorem store_is_only_ever_set_witness:
  "store_get m_policy (db (init_state db_stale)) (key m_policy @ a12) = Val (- 1) \<and>
   shouldRecalculate (options m_policy) = Some (\<lambda>result a. result < 0) \<and>
   nullish (Null :: int jsval) \<and>
   phase_of stale_fn 0 = Some AwaitFn \<and>
   count (is_set 0) (trace stale_done) = 0 \<and>
   db stale_done = db (init_state db_stale) \<and>
   store_get m_policy (db stale_done) (key m_policy @ a12) = Val (- 1) \<and>
   phase_of stale_done 0 = Some (Settled (Fulfilled Null)) \<and>
   promise_of (call m_policy stale_done a12) = Inr 1 \<and>
   exec m_policy stale_done [Call a12, GetSettles 1 None] =
     advance 1 AwaitFn (emit [CallShouldRecalculate 1 (- 1) a12, CallFn 1 a12]
       (step m_policy (Call a12) stale_done)) \<and>
   kv (options m_policy) = None \<and>
   dom (db policy_set) \<subseteq> dom (db (step m_policy (SetSettles 0 None) policy_set)) \<and>
   count (is_set 0) (trace (exec m_policy (init_state db_stale) [Call a12])) \<le> 1 \<and>
   phase_of (step m_policy (FnSettles 0 (Fulfilled (Val 5))) policy_fn) 0 = Some (AwaitSet 5 (Some 1000)) \<and>
   phase_of policy_fn 0 \<noteq> Some (AwaitSet 5 (Some 1000)) \<and>
   (FnSettles 0 (Fulfilled (Val 5)) :: int event) = FnSettles 0 (Fulfilled (Val 5))"
proof -
  have r: "init_state db_stale = exec m_policy (init_state db_stale) []" by simp
  have fresh: "cache (init_state db_stale) ''1.2'' = None" by (simp add: init_state_def)
  have p0: "0 = length (promises (init_state db_stale))" by (simp add: init_state_def)
  have stale: "store_get m_policy (db (init_state db_stale)) (key m_policy @ a12) = Val (- 1)"
    by code_simp
  have rc: "shouldRecalculate (options m_policy) = Some (\<lambda>result a. result < 0)"
    by (simp add: m_policy_def policy_options_def)
  have fc: "(- 1 :: int) < 0" by simp
  have nl: "nullish (Null :: int jsval)" by simp
  have s5: "stale_done = exec m_policy (step m_policy (FnSettles 0 (Fulfilled Null)) stale_fn)
      [Finally 0, Resolve 0]"
    by (simp only: stale_done_def exec.simps)
  have kv: "kv (options m_policy) = None" by (simp add: m_policy_def policy_options_def)
  have a1: "phase_of (step m_policy (FnSettles 0 (Fulfilled (Val 5))) policy_fn) 0
      = Some (AwaitSet 5 (Some 1000))" by code_simp
  have a2: "phase_of policy_fn 0 \<noteq> Some (AwaitSet 5 (Some 1000))" by code_simp
  note t = store_is_only_ever_set[OF r fp_a12 fresh p0 stale_fn_def stale rc fc disjI1[OF nl]
      refl s5 refl, where t=policy_set and ev="SetSettles 0 None" and q=0 and v=5
      and e="Some 1000" and evs="[Call a12]", unfolded One_nat_def[symmetric]]
  note t2 = store_is_only_ever_set[OF r fp_a12 fresh p0 stale_fn_def stale rc fc disjI1[OF nl]
      refl s5 refl, where t=policy_fn and ev="FnSettles 0 (Fulfilled (Val 5))" and q=0 and v=5
      and e="Some 1000" and evs="[Call a12]"]
  note c2 = t2[THEN conjunct2, THEN conjunct1, THEN mp, OF conjI[OF a1 a2]]
  note c3 = t[THEN conjunct2, THEN conjunct2, THEN conjunct1, THEN mp, OF kv]
  note rest = t[THEN conjunct2, THEN conjunct2, THEN conjunct2]
  note c4 = rest[THEN conjunct1]
  note c5 = rest[THEN conjunct2, THEN conjunct1]
  note c6 = rest[THEN conjunct2, THEN conjunct2, THEN conjunct1]
  note c7 = rest[THEN conjunct2, THEN conjunct2, THEN conjunct2, THEN conjunct1]
  note c8 = rest[THEN conjunct2, THEN conjunct2, THEN conjunct2, THEN conjunct2, THEN conjunct1]
  note c9 = rest[THEN conjunct2, THEN conjunct2, THEN conjunct2, THEN conjunct2, THEN conjunct2,
      THEN conjunct1]
  note c10 = rest[THEN conjunct2, THEN conjunct2, THEN conjunct2, THEN conjunct2, THEN conjunct2,
      THEN conjunct2, THEN conjunct1]
  note c11 = rest[THEN conjunct2, THEN conjunct2, THEN conjunct2, THEN conjunct2, THEN conjunct2,
      THEN conjunct2, THEN conjunct2]
  show ?thesis
    by (rule conjI[OF stale conjI[OF rc conjI[OF nl conjI[OF c5 conjI[OF c6 conjI[OF c7
        conjI[OF c8 conjI[OF c9 conjI[OF c10 conjI[OF c11 conjI[OF kv conjI[OF c3 conjI[OF c4
        conjI[OF a1 conjI[OF a2 c2]]]]]]]]]]]]]]])
qed

end
